theory Spec2Isabelle
  imports Main "HOL-Library.AList"
begin

section \<open>JavaScript collections\<close>

text \<open>
  File paths are strings in canonical form: every entry point of the source passes a path
  through Node's \<^verbatim>\<open>path.normalize\<close> first, which is the identity on a canonical path, so the
  model leaves that call out.

  A JavaScript \<^verbatim>\<open>Map<string, V>\<close> keeps its entries in insertion order with unique keys; it
  is an association list. \<^verbatim>\<open>Map.set\<close> replaces the value of a present key in place and appends
  an absent one, which is \<^const>\<open>AList.update\<close>; \<^verbatim>\<open>Map.delete\<close> is \<^const>\<open>AList.delete\<close>;
  \<^verbatim>\<open>Map.get\<close> is \<^const>\<open>map_of\<close>. A \<^verbatim>\<open>Set<string>\<close> is the list of its members in insertion
  order.
\<close>

type_synonym path = string

type_synonym 'v jsmap = "(string \<times> 'v) list"

type_synonym jsset = "string list"

definition set_add :: "string \<Rightarrow> jsset \<Rightarrow> jsset" where
  "set_add x s = (if x \<in> set s then s else s @ [x])"

definition set_delete :: "string \<Rightarrow> jsset \<Rightarrow> jsset" where
  "set_delete x s = removeAll x s"

text \<open>\<^verbatim>\<open>new Set(iterable)\<close> adds the elements one after the other.\<close>

definition new_Set :: "string list \<Rightarrow> jsset" where
  "new_Set xs = fold set_add xs []"

text \<open>\<^verbatim>\<open>new Map(entries)\<close> and \<^verbatim>\<open>Object.fromEntries(entries)\<close> set the keys one after the
  other, so a later entry of a repeated key wins. (A JavaScript object lists its
  integer-like keys first; nothing below depends on the order of the keys of an object.)\<close>

definition new_Map :: "(string \<times> 'v) list \<Rightarrow> 'v jsmap" where
  "new_Map es = fold (\<lambda>(k, v) m. AList.update k v m) es []"

definition wf_map :: "'v jsmap \<Rightarrow> bool" where
  "wf_map m = distinct (map fst m)"

section \<open>DependencyTracker\<close>

record tracker =
  dependencyGraph :: "jsset jsmap"
  reverseDependencyGraph :: "jsset jsmap"
  inheritanceGraph :: "jsset jsmap"

definition getDependencies :: "tracker \<Rightarrow> path \<Rightarrow> path list" where
  "getDependencies t filePath =
     (case map_of (dependencyGraph t) filePath of Some deps \<Rightarrow> deps | None \<Rightarrow> [])"

definition getDependents :: "tracker \<Rightarrow> path \<Rightarrow> path list" where
  "getDependents t filePath =
     (case map_of (reverseDependencyGraph t) filePath of
        Some dependents \<Rightarrow> dependents
      | None \<Rightarrow> [])"

text \<open>\<^verbatim>\<open>getInheritors\<close> walks the entries of the inheritance graph and keeps the files whose
  set of inherited files has the path.\<close>

definition getInheritors :: "tracker \<Rightarrow> path \<Rightarrow> path list" where
  "getInheritors t filePath =
     map fst (filter (\<lambda>(file, inheritedFiles). filePath \<in> set inheritedFiles)
                (inheritanceGraph t))"

text \<open>
  The \<^verbatim>\<open>while (queue.length > 0)\<close> loop of \<^verbatim>\<open>getAffectedFiles\<close>. Its state is the queue, the
  visited set and the affected set; one round shifts the head of the queue, skips it when
  it was visited, and otherwise adds its dependents and then its inheritors to the affected
  set and to the end of the queue. The loop returns both sets; \<^verbatim>\<open>getAffectedFiles\<close> returns
  the affected one.
\<close>

definition graph_files :: "tracker \<Rightarrow> path set" where
  "graph_files t =
     (\<Union>(set ` snd ` set (reverseDependencyGraph t))) \<union> fst ` set (inheritanceGraph t)"

lemma finite_graph_files: "finite (graph_files t)"
  by (simp add: graph_files_def)

lemma getDependents_files: "set (getDependents t p) \<subseteq> graph_files t"
proof (cases "map_of (reverseDependencyGraph t) p")
  case None
  then show ?thesis by (simp add: getDependents_def)
next
  case (Some ds)
  then have "(p, ds) \<in> set (reverseDependencyGraph t)" by (rule map_of_SomeD)
  then have "set ds \<subseteq> \<Union>(set ` snd ` set (reverseDependencyGraph t))" by force
  with Some show ?thesis by (auto simp: getDependents_def graph_files_def)
qed

lemma getInheritors_files: "set (getInheritors t p) \<subseteq> graph_files t"
  by (auto simp: getInheritors_def graph_files_def)

function affected_loop ::
  "tracker \<Rightarrow> path list \<Rightarrow> jsset \<Rightarrow> jsset \<Rightarrow> jsset \<times> jsset" where
  "affected_loop t [] visited affected = (affected, visited)"
| "affected_loop t (current # queue) visited affected =
     (if current \<in> set visited then affected_loop t queue visited affected
      else
        affected_loop t
          (queue @ getDependents t current @ getInheritors t current)
          (set_add current visited)
          (fold set_add (getDependents t current @ getInheritors t current) affected))"
  by pat_completeness auto

lemma affected_measure_skip:
  "card ((graph_files t \<union> set queue) - set visited)
     \<le> card ((graph_files t \<union> set (current # queue)) - set visited)"
proof (rule card_mono)
  show "finite ((graph_files t \<union> set (current # queue)) - set visited)"
    by (simp add: finite_graph_files)
  show "(graph_files t \<union> set queue) - set visited
          \<subseteq> (graph_files t \<union> set (current # queue)) - set visited"
    by auto
qed

lemma affected_measure_expand:
  assumes "current \<notin> set visited"
  shows "card ((graph_files t
                 \<union> set (queue @ getDependents t current @ getInheritors t current))
              - set (set_add current visited))
         < card ((graph_files t \<union> set (current # queue)) - set visited)"
    (is "card ?new < card ?old")
proof (rule psubset_card_mono)
  show "finite ?old" by (simp add: finite_graph_files)
  have "?new \<subseteq> ?old - {current}"
    using getDependents_files[of t current] getInheritors_files[of t current]
    by (auto simp: set_add_def)
  moreover have "current \<in> ?old" using assms by simp
  ultimately show "?new \<subset> ?old" by blast
qed

termination affected_loop
proof (relation "inv_image (less_than <*lex*> less_than)
         (\<lambda>(t, queue, visited, affected).
            (card ((graph_files t \<union> set queue) - set visited), length queue))",
       goal_cases)
  case 1
  show ?case by (intro wf_inv_image wf_lex_prod wf_less_than)
next
  case 2
  then show ?case
    using affected_measure_skip by (simp add: le_less)
next
  case 3
  then show ?case
    using affected_measure_expand by simp
qed

definition getAffectedFiles :: "tracker \<Rightarrow> path \<Rightarrow> jsset" where
  "getAffectedFiles t changedFilePath = fst (affected_loop t [changedFilePath] [] [])"


text \<open>
  What ts-morph gives the scanner for one source file, reduced to what the code reads from
  it: the \<^verbatim>\<open>ControllerInfo\<close> that \<^verbatim>\<open>extractControllerInfo\<close> builds from the first class with a
  \<^verbatim>\<open>Controller\<close> decorator (\<^const>\<open>None\<close> when no class has one), the files its relative imports
  resolve to, the declaration files of the types it refers to, and the declaration files of
  the classes and interfaces it extends or implements (outside \<^verbatim>\<open>node_modules\<close>). A method
  is kept as its name, HTTP method and route.
\<close>

record controller_info =
  ci_name :: string
  ci_path :: string
  ci_methods :: "(string \<times> string \<times> string) list"
  ci_hasGuards :: bool
  ci_filePath :: "path option"

record source_ast =
  controllerClass :: "controller_info option"
  importPaths :: "path list"
  typeReferencePaths :: "path list"
  inheritancePaths :: "path list"

text \<open>
  \<^verbatim>\<open>analyzeDependencies\<close> reads the file from the project (no such file: no dependencies),
  collects imports, type references and inheritance targets in one set, and stores the
  inheritance targets in the inheritance graph when there are any.
\<close>

definition analyzeDependencies ::
  "tracker \<Rightarrow> source_ast jsmap \<Rightarrow> path \<Rightarrow> path list \<times> tracker" where
  "analyzeDependencies t sources filePath =
     (case map_of sources filePath of
        None \<Rightarrow> ([], t)
      | Some sourceFile \<Rightarrow>
          let inheritanceChain = new_Set (inheritancePaths sourceFile);
              dependencies =
                fold set_add inheritanceChain
                  (fold set_add (new_Set (typeReferencePaths sourceFile))
                    (new_Set (importPaths sourceFile)))
          in (dependencies,
              if inheritanceChain \<noteq> []
              then t\<lparr>inheritanceGraph :=
                       AList.update filePath inheritanceChain (inheritanceGraph t)\<rparr>
              else t))"

text \<open>The body of the loops over a file's dependencies in \<^verbatim>\<open>updateDependency\<close> and
  \<^verbatim>\<open>removeDependency\<close>: take the file out of the reverse entry of one dependency and drop
  the entry when it becomes empty.\<close>

definition dropReverseEdge :: "path \<Rightarrow> path \<Rightarrow> jsset jsmap \<Rightarrow> jsset jsmap" where
  "dropReverseEdge filePath dep reverse =
     (case map_of reverse dep of
        None \<Rightarrow> reverse
      | Some reverseDeps \<Rightarrow>
          if set_delete filePath reverseDeps = [] then AList.delete dep reverse
          else AList.update dep (set_delete filePath reverseDeps) reverse)"

definition addReverseEdge :: "path \<Rightarrow> path \<Rightarrow> jsset jsmap \<Rightarrow> jsset jsmap" where
  "addReverseEdge filePath dep reverse =
     (case map_of reverse dep of
        None \<Rightarrow> AList.update dep [filePath] reverse
      | Some reverseDeps \<Rightarrow> AList.update dep (set_add filePath reverseDeps) reverse)"

definition updateDependency :: "tracker \<Rightarrow> source_ast jsmap \<Rightarrow> path \<Rightarrow> tracker" where
  "updateDependency t sources filePath =
     (let rev1 = (case map_of (dependencyGraph t) filePath of
                    None \<Rightarrow> reverseDependencyGraph t
                  | Some oldDeps \<Rightarrow>
                      fold (dropReverseEdge filePath) oldDeps (reverseDependencyGraph t));
          (newDeps, t1) =
            analyzeDependencies (t\<lparr>reverseDependencyGraph := rev1\<rparr>) sources filePath
      in t1\<lparr>dependencyGraph :=
                AList.update filePath (new_Set newDeps) (dependencyGraph t1),
              reverseDependencyGraph :=
                fold (addReverseEdge filePath) newDeps (reverseDependencyGraph t1)\<rparr>)"

definition removeDependency :: "tracker \<Rightarrow> path \<Rightarrow> tracker" where
  "removeDependency t filePath =
     (let rev1 = (case map_of (dependencyGraph t) filePath of
                    None \<Rightarrow> reverseDependencyGraph t
                  | Some deps \<Rightarrow>
                      fold (dropReverseEdge filePath) deps (reverseDependencyGraph t))
      in t\<lparr>dependencyGraph := AList.delete filePath (dependencyGraph t),
             reverseDependencyGraph := AList.delete filePath rev1\<rparr>)"

text \<open>
  \<^verbatim>\<open>isDtoFile\<close>: the base name of the path without a final \<^verbatim>\<open>.ts\<close> must end, in any letter
  case, with one of five suffixes. \<^verbatim>\<open>path.basename(p, '.ts')\<close> is the last segment of the
  path, without the extension unless the segment is the extension alone.
\<close>

definition toLower :: "char \<Rightarrow> char" where
  "toLower c =
     (case map_of (zip ''ABCDEFGHIJKLMNOPQRSTUVWXYZ'' ''abcdefghijklmnopqrstuvwxyz'') c of
        Some l \<Rightarrow> l
      | None \<Rightarrow> c)"

definition endsWith :: "string \<Rightarrow> string \<Rightarrow> bool" where
  "endsWith s suffix =
     (length suffix \<le> length s \<and> drop (length s - length suffix) s = suffix)"

definition basename :: "path \<Rightarrow> string \<Rightarrow> string" where
  "basename p ext =
     (let trimmed = rev (dropWhile (\<lambda>c. c = CHR ''/'') (rev p));
          segment = rev (takeWhile (\<lambda>c. c \<noteq> CHR ''/'') (rev trimmed))
      in if p = ext then []
         else if endsWith segment ext \<and> segment \<noteq> ext
         then take (length segment - length ext) segment
         else segment)"

definition isDtoFile :: "path \<Rightarrow> bool" where
  "isDtoFile filePath =
     (let fileName = map toLower (basename filePath ''.ts'')
      in list_ex (endsWith fileName)
           [''.dto'', ''.model'', ''.entity'', ''.interface'', ''.type''])"


section \<open>CacheManager\<close>

record cached_controller =
  filePath :: path
  fileHash :: string
  fileSize :: nat
  controllerInfo :: controller_info
  cdependencies :: "path list"
  lastScanned :: int

text \<open>The timestamp of the metadata is the number that \<^verbatim>\<open>load\<close> found in the file, so it is
  absent when the file had none.\<close>

record cache_metadata =
  version :: string
  timestamp :: "int option"
  tsConfigHash :: "string option"
  controllers :: "cached_controller jsmap"
  dependencies :: "jsset jsmap"

datatype hashAlg = MD5 | SHA256

text \<open>The lines the cache manager prints about fingerprint collisions: the warning of
  \<^verbatim>\<open>hasFileChanged\<close> (path, hash, cached size, current size) and the escalation of
  \<^verbatim>\<open>trackHashCollision\<close> (hash, number of collisions printed).\<close>

datatype console_line =
  CollisionDetected path string nat nat
| CollisionEscalation string nat

record cache_manager =
  cacheFilePath :: path
  enabled :: bool
  ttl :: int
  hashAlgorithm :: hashAlg
  metadata :: cache_metadata
  hashCollisions :: "nat jsmap"
  console :: "console_line list"

definition CACHE_VERSION :: string where
  "CACHE_VERSION = ''1.0.0''"

text \<open>
  The JSON document of a cache file as \<^verbatim>\<open>load\<close> reads it: each field may be missing. A file
  is text that \<^verbatim>\<open>JSON.parse\<close> rejects, a JSON value that is no object (\<^verbatim>\<open>null\<close>, a number, a
  string), or a document. Fields that are present have the types \<^verbatim>\<open>save\<close> writes.
\<close>

record persisted =
  p_version :: "string option"
  p_timestamp :: "int option"
  p_tsConfigHash :: "string option"
  p_controllers :: "(string \<times> cached_controller) list option"
  p_dependencies :: "(string \<times> string list) list option"

datatype cache_file = Unparseable | NonObject | Doc persisted

text \<open>
  The world outside the process, as the code observes it: the clock, the JSON files on
  disk and whether a path can be written, and for source files whether one exists, its
  size (\<^verbatim>\<open>fs.statSync\<close>; \<^const>\<open>None\<close> when it throws), the digest of its content under each
  algorithm (\<^const>\<open>None\<close> when it cannot be read) and its syntax tree (\<^const>\<open>None\<close> when ts-morph
  cannot read it).
\<close>

record world =
  now :: int
  cacheFiles :: "path \<Rightarrow> cache_file option"
  writable :: "path \<Rightarrow> bool"
  existsSync :: "path \<Rightarrow> bool"
  statSize :: "path \<Rightarrow> nat option"
  contentHash :: "hashAlg \<Rightarrow> path \<Rightarrow> string option"
  tsSource :: "path \<Rightarrow> source_ast option"

text \<open>The constructor, with the option defaults resolved by the caller.\<close>

definition newCacheManager :: "world \<Rightarrow> path \<Rightarrow> bool \<Rightarrow> int \<Rightarrow> hashAlg \<Rightarrow> cache_manager" where
  "newCacheManager w file en life alg =
     \<lparr>cacheFilePath = file, enabled = en, ttl = life, hashAlgorithm = alg,
      metadata = \<lparr>version = CACHE_VERSION, timestamp = Some (now w), tsConfigHash = None,
                  controllers = [], dependencies = []\<rparr>,
      hashCollisions = [], console = []\<rparr>"

text \<open>
  \<^verbatim>\<open>load\<close>. Every early \<^verbatim>\<open>return false\<close> and the \<^verbatim>\<open>catch\<close> leave \<^verbatim>\<open>this.metadata\<close> as it was;
  the metadata is assigned once, after all checks, when \<^verbatim>\<open>parsed.version\<close> is the expected
  version. A missing timestamp makes the age \<^verbatim>\<open>NaN\<close>, and \<^verbatim>\<open>NaN > ttl\<close> is false.
\<close>

definition load :: "cache_manager \<Rightarrow> world \<Rightarrow> bool \<times> cache_manager" where
  "load cm w =
     (if \<not> enabled cm then (False, cm)
      else case cacheFiles w (cacheFilePath cm) of
        None \<Rightarrow> (False, cm)
      | Some Unparseable \<Rightarrow> (False, cm)
      | Some NonObject \<Rightarrow> (False, cm)
      | Some (Doc parsed) \<Rightarrow>
          if p_version parsed \<noteq> Some CACHE_VERSION then (False, cm)
          else if (case p_timestamp parsed of
                     None \<Rightarrow> False
                   | Some ts \<Rightarrow> now w - ts > ttl cm) then (False, cm)
          else (True,
                cm\<lparr>metadata :=
                     \<lparr>version = CACHE_VERSION,
                      timestamp = p_timestamp parsed,
                      tsConfigHash = p_tsConfigHash parsed,
                      controllers =
                        new_Map (case p_controllers parsed of None \<Rightarrow> [] | Some es \<Rightarrow> es),
                      dependencies =
                        new_Map (map (\<lambda>(key, value). (key, new_Set value))
                          (case p_dependencies parsed of None \<Rightarrow> [] | Some es \<Rightarrow> es))\<rparr>\<rparr>))"

text \<open>
  \<^verbatim>\<open>save\<close> builds the document and hands it to one \<^verbatim>\<open>fs.writeFileSync\<close> on the cache path;
  a write that throws is caught and answered with \<^verbatim>\<open>false\<close>. \<^verbatim>\<open>Array.from(set)\<close> lists the
  members of a set in order.
\<close>

definition Array_from :: "jsset \<Rightarrow> string list" where
  "Array_from members = members"

definition serializable :: "cache_manager \<Rightarrow> world \<Rightarrow> persisted" where
  "serializable cm w =
     \<lparr>p_version = Some (version (metadata cm)),
      p_timestamp = Some (now w),
      p_tsConfigHash = tsConfigHash (metadata cm),
      p_controllers = Some (new_Map (controllers (metadata cm))),
      p_dependencies =
        Some (new_Map (map (\<lambda>(key, value). (key, Array_from value))
                (dependencies (metadata cm))))\<rparr>"

definition write_file :: "world \<Rightarrow> path \<Rightarrow> cache_file \<Rightarrow> world" where
  "write_file w file content = w\<lparr>cacheFiles := (cacheFiles w)(file \<mapsto> content)\<rparr>"

definition writeFileSync :: "world \<Rightarrow> path \<Rightarrow> cache_file \<Rightarrow> world option" where
  "writeFileSync w file content =
     (if writable w file then Some (write_file w file content) else None)"

definition save :: "cache_manager \<Rightarrow> world \<Rightarrow> bool \<times> world" where
  "save cm w =
     (if \<not> enabled cm then (False, w)
      else case writeFileSync w (cacheFilePath cm) (Doc (serializable cm w)) of
        None \<Rightarrow> (False, w)
      | Some w' \<Rightarrow> (True, w'))"

definition getController :: "cache_manager \<Rightarrow> path \<Rightarrow> cached_controller option" where
  "getController cm file = map_of (controllers (metadata cm)) file"

definition setController :: "cache_manager \<Rightarrow> path \<Rightarrow> cached_controller \<Rightarrow> cache_manager" where
  "setController cm file cached =
     cm\<lparr>metadata := (metadata cm)
          \<lparr>controllers := AList.update file cached (controllers (metadata cm))\<rparr>\<rparr>"

text \<open>\<^verbatim>\<open>removeController\<close> deletes the record and the file's own dependency entry, then takes
  the file out of every remaining dependency set and drops the sets that are empty.\<close>

definition removeController :: "cache_manager \<Rightarrow> path \<Rightarrow> cache_manager" where
  "removeController cm file =
     cm\<lparr>metadata := (metadata cm)
          \<lparr>controllers := AList.delete file (controllers (metadata cm)),
           dependencies :=
             filter (\<lambda>(key, deps). deps \<noteq> [])
               (map (\<lambda>(key, deps). (key, set_delete file deps))
                  (AList.delete file (dependencies (metadata cm))))\<rparr>\<rparr>"

definition addDependency :: "cache_manager \<Rightarrow> path \<Rightarrow> path \<Rightarrow> cache_manager" where
  "addDependency cm controllerPath dependencyPath =
     cm\<lparr>metadata := (metadata cm)
          \<lparr>dependencies :=
             (case map_of (dependencies (metadata cm)) controllerPath of
                None \<Rightarrow>
                  AList.update controllerPath [dependencyPath] (dependencies (metadata cm))
              | Some deps \<Rightarrow>
                  AList.update controllerPath (set_add dependencyPath deps)
                    (dependencies (metadata cm)))\<rparr>\<rparr>"

definition getDependentControllers :: "cache_manager \<Rightarrow> path \<Rightarrow> path list" where
  "getDependentControllers cm file =
     map fst (filter (\<lambda>(controllerPath, deps). file \<in> set deps)
                (dependencies (metadata cm)))"

text \<open>\<^verbatim>\<open>trackHashCollision\<close>: \<^verbatim>\<open>count\<close> is the number stored before this collision.\<close>

definition collisionCount :: "cache_manager \<Rightarrow> string \<Rightarrow> nat" where
  "collisionCount cm hash = (case map_of (hashCollisions cm) hash of Some n \<Rightarrow> n | None \<Rightarrow> 0)"

definition trackHashCollision :: "cache_manager \<Rightarrow> string \<Rightarrow> cache_manager" where
  "trackHashCollision cm hash =
     (let count = collisionCount cm hash;
          cm1 = cm\<lparr>hashCollisions := AList.update hash (count + 1) (hashCollisions cm)\<rparr>
      in if count \<ge> 3
         then cm1\<lparr>console := console cm1 @ [CollisionEscalation hash (count + 1)]\<rparr>
         else cm1)"

definition hasFileChanged :: "cache_manager \<Rightarrow> world \<Rightarrow> path \<Rightarrow> string \<Rightarrow> bool \<times> cache_manager" where
  "hasFileChanged cm w file currentHash =
     (case map_of (controllers (metadata cm)) file of
        None \<Rightarrow> (True, cm)
      | Some cached \<Rightarrow>
          if fileHash cached \<noteq> currentHash then (True, cm)
          else case statSize w file of
            None \<Rightarrow> (True, cm)
          | Some currentSize \<Rightarrow>
              if fileSize cached \<noteq> currentSize
              then (True,
                    trackHashCollision
                      (cm\<lparr>console := console cm @
                           [CollisionDetected file currentHash (fileSize cached) currentSize]\<rparr>)
                      currentHash)
              else (False, cm))"

definition calculateHash :: "cache_manager \<Rightarrow> world \<Rightarrow> path \<Rightarrow> string" where
  "calculateHash cm w file =
     (case contentHash w (hashAlgorithm cm) file of Some h \<Rightarrow> h | None \<Rightarrow> [])"

definition getFileSize :: "world \<Rightarrow> path \<Rightarrow> nat" where
  "getFileSize w file = (case statSize w file of Some n \<Rightarrow> n | None \<Rightarrow> 0)"


section \<open>IncrementalScannerService\<close>

datatype eventType = Add | Change | Unlink

record fileChangeEvent =
  eventType :: eventType
  eventPath :: path
  eventHash :: "string option"

text \<open>
  The scanner: the ts-morph project (the syntax trees it holds in memory, or \<^verbatim>\<open>null\<close>), the
  cache manager, the dependency tracker and the initialized flag. \<^verbatim>\<open>analyzerRuns\<close> is not a
  field of the source: it records every path for which \<^verbatim>\<open>scanFile\<close> goes past its cache check
  into the ts-morph analysis, so that theorems can count analyzer invocations.
\<close>

record scanner =
  project :: "source_ast jsmap option"
  cacheManager :: cache_manager
  dependencyTracker :: "tracker option"
  isInitialized :: bool
  analyzerRuns :: "path list"

text \<open>An exception that \<^verbatim>\<open>scanFile\<close> does not catch: \<^verbatim>\<open>refreshFromFileSystemSync\<close> on a file of
  the project that can no longer be read forgets the file, and reading its classes then
  throws. The exception leaves \<^verbatim>\<open>scanFile\<close> and \<^verbatim>\<open>processFileChanges\<close>; the model gives it as
  their result and does not keep the state of the scanner at that point.\<close>

datatype scan_error = ForgottenSourceFile path

text \<open>The part of \<^verbatim>\<open>scanFile\<close> after the cache check: get the syntax tree, look for the
  controller class, and record the result in the cache.\<close>

definition scanFile_analyze ::
  "world \<Rightarrow> scanner \<Rightarrow> source_ast jsmap \<Rightarrow> cache_manager \<Rightarrow> path \<Rightarrow> string \<Rightarrow> nat
     \<Rightarrow> scan_error + (controller_info option \<times> scanner)" where
  "scanFile_analyze w s sources cm file currentHash currentSize =
     (let s1 = s\<lparr>cacheManager := cm, analyzerRuns := analyzerRuns s @ [file]\<rparr>
      in case (map_of sources file, tsSource w file) of
        (None, None) \<Rightarrow> Inr (None, s1)
      | (Some loaded, None) \<Rightarrow> Inl (ForgottenSourceFile file)
      | (_, Some sourceFile) \<Rightarrow>
          let sources1 = AList.update file sourceFile sources
          in case controllerClass sourceFile of
            None \<Rightarrow>
              Inr (None, s1\<lparr>project := Some sources1,
                            cacheManager := removeController cm file\<rparr>)
          | Some extracted \<Rightarrow>
              let info = extracted\<lparr>ci_filePath := Some file\<rparr>;
                  (deps, tracker1) =
                    (case dependencyTracker s of
                       None \<Rightarrow> ([], None)
                     | Some t \<Rightarrow>
                         (fst (analyzeDependencies t sources1 file),
                          Some (snd (analyzeDependencies t sources1 file))));
                  cachedController =
                    \<lparr>filePath = file, fileHash = currentHash, fileSize = currentSize,
                     controllerInfo = info, cdependencies = deps,
                     lastScanned = now w\<rparr>;
                  cm1 = setController cm file cachedController;
                  cm2 = fold (\<lambda>dep c. addDependency c file dep) deps cm1
              in Inr (Some info,
                      s1\<lparr>project := Some sources1, cacheManager := cm2,
                         dependencyTracker := tracker1\<rparr>))"

text \<open>\<^verbatim>\<open>scanFile\<close>. \<^verbatim>\<open>cached && !hasFileChanged(...)\<close> calls \<^verbatim>\<open>hasFileChanged\<close> only when there is a
  cached record.\<close>

definition scanFile ::
  "world \<Rightarrow> scanner \<Rightarrow> path \<Rightarrow> scan_error + (controller_info option \<times> scanner)" where
  "scanFile w s file =
     (case project s of
        None \<Rightarrow> Inr (None, s)
      | Some sources \<Rightarrow>
          let currentHash = calculateHash (cacheManager s) w file;
              currentSize = getFileSize w file
          in case getController (cacheManager s) file of
            None \<Rightarrow>
              scanFile_analyze w s sources (cacheManager s) file currentHash currentSize
          | Some cached \<Rightarrow>
              let (changed, cm1) = hasFileChanged (cacheManager s) w file currentHash
              in if \<not> changed
                 then Inr (Some (controllerInfo cached), s\<lparr>cacheManager := cm1\<rparr>)
                 else scanFile_analyze w s sources cm1 file currentHash currentSize)"

definition handleFileDelete :: "scanner \<Rightarrow> path \<Rightarrow> jsset \<Rightarrow> scanner \<times> jsset" where
  "handleFileDelete s file affectedFiles =
     (let dependents = getDependentControllers (cacheManager s) file
      in (s\<lparr>cacheManager := removeController (cacheManager s) file,
             dependencyTracker :=
               map_option (\<lambda>t. removeDependency t file) (dependencyTracker s),
             project := map_option (AList.delete file) (project s)\<rparr>,
          fold set_add dependents affectedFiles))"

text \<open>The body of the first loop of \<^verbatim>\<open>processFileChanges\<close>, over the events.\<close>

definition collectEvent :: "fileChangeEvent \<Rightarrow> scanner \<times> jsset \<Rightarrow> scanner \<times> jsset" where
  "collectEvent event acc =
     (case acc of (s, affectedFiles) \<Rightarrow>
        if eventType event = Unlink then handleFileDelete s (eventPath event) affectedFiles
        else (s,
              case dependencyTracker s of
                None \<Rightarrow> set_add (eventPath event) affectedFiles
              | Some t \<Rightarrow>
                  if isDtoFile (eventPath event)
                  then fold set_add (getDependents t (eventPath event))
                         (set_add (eventPath event) affectedFiles)
                  else set_add (eventPath event) affectedFiles))"

text \<open>The second loop, over the affected files: a file that is not on disk is skipped; the
  others are scanned, and the dependency graph is updated for those with a result.\<close>

fun scanAffected ::
  "world \<Rightarrow> path list \<Rightarrow> scanner \<Rightarrow> (controller_info option) jsmap
     \<Rightarrow> scan_error + (scanner \<times> (controller_info option) jsmap)" where
  "scanAffected w [] s results = Inr (s, results)"
| "scanAffected w (file # files) s results =
     (if \<not> existsSync w file then scanAffected w files s results
      else case scanFile w s file of
        Inl e \<Rightarrow> Inl e
      | Inr (result, s1) \<Rightarrow>
          scanAffected w files
            (case (dependencyTracker s1, result) of
               (Some t, Some info) \<Rightarrow>
                 s1\<lparr>dependencyTracker :=
                      Some (updateDependency t
                              (case project s1 of Some sources \<Rightarrow> sources | None \<Rightarrow> [])
                              file)\<rparr>
             | _ \<Rightarrow> s1)
            (AList.update file result results))"

definition processFileChanges ::
  "world \<Rightarrow> scanner \<Rightarrow> fileChangeEvent list
     \<Rightarrow> scan_error + ((controller_info option) jsmap \<times> scanner \<times> world)" where
  "processFileChanges w s events =
     (if \<not> isInitialized s \<or> project s = None then Inr ([], s, w)
      else
        case fold collectEvent events (s, []) of (s1, affectedFiles) \<Rightarrow>
          case scanAffected w affectedFiles s1 [] of
            Inl e \<Rightarrow> Inl e
          | Inr (s2, results) \<Rightarrow> Inr (results, s2, snd (save (cacheManager s2) w)))"


section \<open>The transitive-impact query\<close>

lemma set_set_add: "set (set_add x s) = insert x (set s)"
  by (auto simp: set_add_def)

lemma distinct_set_add: "distinct s \<Longrightarrow> distinct (set_add x s)"
  by (simp add: set_add_def)

lemma set_fold_set_add: "set (fold set_add xs s) = set xs \<union> set s"
  by (induction xs arbitrary: s) (auto simp: set_set_add)

lemma distinct_fold_set_add: "distinct s \<Longrightarrow> distinct (fold set_add xs s)"
  by (induction xs arbitrary: s) (auto simp: distinct_set_add)

lemma set_new_Set: "set (new_Set xs) = set xs"
  by (simp add: new_Set_def set_fold_set_add)

text \<open>One hop of the impact relation: from a file to the files that depend on it and the
  files that inherit from it.\<close>

definition impact_succs :: "tracker \<Rightarrow> path \<Rightarrow> path set" where
  "impact_succs t v = set (getDependents t v) \<union> set (getInheritors t v)"

definition impact_edges :: "tracker \<Rightarrow> (path \<times> path) set" where
  "impact_edges t = {(v, w). w \<in> impact_succs t v}"

lemma loop_visited_mono:
  "set visited \<subseteq> set (snd (affected_loop t queue visited affected))"
  by (induction t queue visited affected rule: affected_loop.induct)
     (auto simp: set_set_add)

lemma loop_visited_distinct:
  "distinct visited \<Longrightarrow> distinct (snd (affected_loop t queue visited affected))"
  by (induction t queue visited affected rule: affected_loop.induct)
     (auto simp: distinct_set_add)

lemma loop_visited_files:
  "set (snd (affected_loop t queue visited affected))
     \<subseteq> set visited \<union> set queue \<union> graph_files t"
proof (induction t queue visited affected rule: affected_loop.induct)
  case (1 t visited affected)
  show ?case by simp
next
  case (2 t current queue visited affected)
  show ?case
  proof (cases "current \<in> set visited")
    case True
    with 2 show ?thesis by auto
  next
    case False
    with 2 getDependents_files[of t current] getInheritors_files[of t current]
    show ?thesis by (auto simp: set_set_add)
  qed
qed

lemma loop_affected:
  "set (fst (affected_loop t queue visited affected))
     = set affected
       \<union> (\<Union>v \<in> set (snd (affected_loop t queue visited affected)) - set visited.
            impact_succs t v)"
proof (induction t queue visited affected rule: affected_loop.induct)
  case (1 t visited affected)
  show ?case by simp
next
  case (2 t current queue visited affected)
  show ?case
  proof (cases "current \<in> set visited")
    case True
    with 2 show ?thesis by simp
  next
    case False
    let ?r = "affected_loop t (queue @ getDependents t current @ getInheritors t current)
                (set_add current visited)
                (fold set_add (getDependents t current @ getInheritors t current) affected)"
    have cur: "current \<in> set (snd ?r)"
      using loop_visited_mono[of "set_add current visited" t] by (auto simp: set_set_add)
    have split: "set (snd ?r) - set visited
                   = insert current (set (snd ?r) - set (set_add current visited))"
      using cur False by (auto simp: set_set_add)
    have "set (fst ?r) = set (fold set_add (getDependents t current @ getInheritors t current) affected)
             \<union> (\<Union>v \<in> set (snd ?r) - set (set_add current visited). impact_succs t v)"
      using 2(2)[OF False] .
    also have "\<dots> = set affected \<union> (\<Union>v \<in> set (snd ?r) - set visited. impact_succs t v)"
      unfolding split by (auto simp: set_fold_set_add impact_succs_def)
    finally show ?thesis using False by simp
  qed
qed

lemma loop_visited_sound:
  "set (snd (affected_loop t queue visited affected))
     \<subseteq> set visited \<union> (impact_edges t)\<^sup>* `` set queue"
proof (induction t queue visited affected rule: affected_loop.induct)
  case (1 t visited affected)
  show ?case by simp
next
  case (2 t current queue visited affected)
  show ?case
  proof (cases "current \<in> set visited")
    case True
    with 2 show ?thesis by auto
  next
    case False
    have step: "(impact_edges t)\<^sup>* `` impact_succs t current
                 \<subseteq> (impact_edges t)\<^sup>* `` {current}"
      by (auto simp: impact_edges_def intro: converse_rtrancl_into_rtrancl)
    have "set (snd (affected_loop t (current # queue) visited affected))
            \<subseteq> set (set_add current visited)
               \<union> (impact_edges t)\<^sup>* ``
                   set (queue @ getDependents t current @ getInheritors t current)"
      using 2(2)[OF False] False by simp
    also have "\<dots> \<subseteq> set visited \<union> (impact_edges t)\<^sup>* `` set (current # queue)"
      using step by (auto simp: set_set_add impact_succs_def)
    finally show ?thesis .
  qed
qed

lemma loop_visited_closed:
  assumes "\<forall>v \<in> set visited. impact_succs t v \<subseteq> set visited \<union> set queue"
  shows "set queue \<subseteq> set (snd (affected_loop t queue visited affected))
         \<and> (\<forall>v \<in> set (snd (affected_loop t queue visited affected)).
              impact_succs t v \<subseteq> set (snd (affected_loop t queue visited affected)))"
  using assms
proof (induction t queue visited affected rule: affected_loop.induct)
  case (1 t visited affected)
  then show ?case by simp
next
  case (2 t current queue visited affected)
  show ?case
  proof (cases "current \<in> set visited")
    case True
    have pre: "\<forall>v \<in> set visited. impact_succs t v \<subseteq> set visited \<union> set queue"
      using 2(3) True by auto
    have "current \<in> set (snd (affected_loop t queue visited affected))"
      using loop_visited_mono[of visited t queue affected] True by auto
    with 2(1)[OF True pre] True show ?thesis by simp
  next
    case False
    let ?q = "queue @ getDependents t current @ getInheritors t current"
    have pre: "\<forall>v \<in> set (set_add current visited).
                 impact_succs t v \<subseteq> set (set_add current visited) \<union> set ?q"
      using 2(3) by (auto simp: set_set_add impact_succs_def)
    have "current \<in> set (snd (affected_loop t ?q (set_add current visited)
             (fold set_add (getDependents t current @ getInheritors t current) affected)))"
      using loop_visited_mono[of "set_add current visited" t] by (auto simp: set_set_add)
    with 2(2)[OF False pre] False show ?thesis by simp
  qed
qed

lemma loop_visited_reach:
  "set (snd (affected_loop t [p] [] [])) = (impact_edges t)\<^sup>* `` {p}"
proof
  show "set (snd (affected_loop t [p] [] [])) \<subseteq> (impact_edges t)\<^sup>* `` {p}"
    using loop_visited_sound[of t "[p]" "[]" "[]"] by simp
next
  let ?V = "set (snd (affected_loop t [p] [] []))"
  have cl: "p \<in> ?V \<and> (\<forall>v \<in> ?V. impact_succs t v \<subseteq> ?V)"
    using loop_visited_closed[of "[]" t "[p]" "[]"] by simp
  have "w \<in> ?V" if "(p, w) \<in> (impact_edges t)\<^sup>*" for w
    using that
  proof (induction rule: rtrancl_induct)
    case base
    show ?case using cl by simp
  next
    case (step y z)
    then show ?case using cl by (auto simp: impact_edges_def)
  qed
  then show "(impact_edges t)\<^sup>* `` {p} \<subseteq> ?V" by auto
qed

lemma getAffectedFiles_trancl:
  "set (getAffectedFiles t p) = (impact_edges t)\<^sup>+ `` {p}"
proof -
  have "set (getAffectedFiles t p)
          = (\<Union>v \<in> set (snd (affected_loop t [p] [] [])). impact_succs t v)"
    unfolding getAffectedFiles_def using loop_affected[of t "[p]" "[]" "[]"]
    by (simp del: affected_loop.simps)
  also have "\<dots> = (\<Union>v \<in> (impact_edges t)\<^sup>* `` {p}. impact_succs t v)"
    by (simp only: loop_visited_reach)
  also have "\<dots> = (impact_edges t)\<^sup>+ `` {p}"
    by (auto simp: impact_edges_def trancl_unfold_right)
  finally show ?thesis .
qed



text \<open>Two files that import each other, and a class file that extends itself and the
  first file.\<close>

definition cyclic_tracker :: tracker where
  "cyclic_tracker =
     \<lparr>dependencyGraph = [(''/src/a.ts'', [''/src/b.ts'']), (''/src/b.ts'', [''/src/a.ts''])],
      reverseDependencyGraph =
        [(''/src/b.ts'', [''/src/a.ts'']), (''/src/a.ts'', [''/src/b.ts''])],
      inheritanceGraph = [(''/src/c.ts'', [''/src/c.ts'', ''/src/a.ts''])]\<rparr>"

text \<open>
  Claim C9. The loop of \<^verbatim>\<open>getAffectedFiles\<close> is defined above by a recursion whose
  termination is proved for every tracker, so it returns on every graph, cyclic or not.
  The loop expands each file at most once: the visited list has no repetition and holds
  only the start file and files of the graph, so there are at most as many expansions as
  distinct files. The affected set is the union, over the expanded files, of their direct
  dependents and their inheritors, and the expanded files are those reachable from the
  start file.
\<close>

theorem getAffectedFiles_terminates:
  "\<exists>affected visited.
     affected_loop t [p] [] [] = (affected, visited)
     \<and> getAffectedFiles t p = affected
     \<and> distinct visited
     \<and> set visited \<subseteq> insert p (graph_files t)
     \<and> length visited \<le> card (insert p (graph_files t))
     \<and> set affected = (\<Union>v \<in> set visited. set (getDependents t v) \<union> set (getInheritors t v))
     \<and> set visited = (impact_edges t)\<^sup>* `` {p}"
proof -
  obtain affected visited where r: "affected_loop t [p] [] [] = (affected, visited)"
    by (cases "affected_loop t [p] [] []")
  have d: "distinct visited"
    using loop_visited_distinct[of "[]" t "[p]" "[]"] r by (simp del: affected_loop.simps)
  have f: "set visited \<subseteq> insert p (graph_files t)"
    using loop_visited_files[of t "[p]" "[]" "[]"] r by (simp del: affected_loop.simps)
  have "length visited = card (set visited)"
    using d by (simp add: distinct_card)
  also have "\<dots> \<le> card (insert p (graph_files t))"
    using f by (intro card_mono) (simp_all add: finite_graph_files)
  finally have l: "length visited \<le> card (insert p (graph_files t))" .
  have a: "set affected = (\<Union>v \<in> set visited. set (getDependents t v) \<union> set (getInheritors t v))"
    using loop_affected[of t "[p]" "[]" "[]"] r
    by (simp del: affected_loop.simps add: impact_succs_def)
  have v: "set visited = (impact_edges t)\<^sup>* `` {p}"
    using loop_visited_reach[of t p] r by (simp del: affected_loop.simps)
  have g: "getAffectedFiles t p = affected"
    by (simp only: getAffectedFiles_def r fst_conv)
  show ?thesis
    by (intro exI[of _ affected] exI[of _ visited] conjI r g d f l a v)
qed

theorem getAffectedFiles_terminates_witness:
  "getAffectedFiles cyclic_tracker ''/src/a.ts'' = [''/src/b.ts'', ''/src/c.ts'', ''/src/a.ts'']
   \<and> getAffectedFiles cyclic_tracker ''/src/c.ts'' = [''/src/c.ts'']"
proof -
  have e1: "getAffectedFiles cyclic_tracker ''/src/a.ts''
              = [''/src/b.ts'', ''/src/c.ts'', ''/src/a.ts'']"
    by (simp add: getAffectedFiles_def cyclic_tracker_def getDependents_def
        getInheritors_def set_add_def)
  have e2: "getAffectedFiles cyclic_tracker ''/src/c.ts'' = [''/src/c.ts'']"
    by (simp add: getAffectedFiles_def cyclic_tracker_def getDependents_def
        getInheritors_def set_add_def)
  from getAffectedFiles_terminates[of cyclic_tracker "''/src/a.ts''"] e1 e2
  show ?thesis by blast
qed



section \<open>The affected set of a batch\<close>

lemma handleFileDelete_affected_mono:
  "set affected \<subseteq> set (snd (handleFileDelete s file affected))"
  by (simp add: handleFileDelete_def Let_def set_fold_set_add)

lemma collectEvent_affected_mono: "set (snd acc) \<subseteq> set (snd (collectEvent e acc))"
  using handleFileDelete_affected_mono
  by (cases acc)
     (auto simp: collectEvent_def set_set_add set_fold_set_add split: option.splits)

lemma fold_collectEvent_affected_mono:
  "set (snd acc) \<subseteq> set (snd (fold collectEvent events acc))"
proof (induction events arbitrary: acc)
  case Nil
  show ?case by simp
next
  case (Cons e events)
  have "set (snd acc) \<subseteq> set (snd (collectEvent e acc))"
    by (rule collectEvent_affected_mono)
  also have "\<dots> \<subseteq> set (snd (fold collectEvent events (collectEvent e acc)))"
    by (rule Cons.IH)
  finally show ?case by simp
qed

lemma collectEvent_adds_path:
  "eventType e \<noteq> Unlink \<Longrightarrow> eventPath e \<in> set (snd (collectEvent e acc))"
  by (cases acc)
     (auto simp: collectEvent_def set_set_add set_fold_set_add split: option.splits)

lemma fold_collectEvent_adds_path:
  "e \<in> set events \<Longrightarrow> eventType e \<noteq> Unlink
     \<Longrightarrow> eventPath e \<in> set (snd (fold collectEvent events acc))"
proof (induction events arbitrary: acc)
  case Nil
  then show ?case by simp
next
  case (Cons x events)
  show ?case
  proof (cases "e = x")
    case True
    then have "eventPath e \<in> set (snd (collectEvent x acc))"
      using Cons.prems(2) by (simp add: collectEvent_adds_path)
    then show ?thesis
      using fold_collectEvent_affected_mono[of "collectEvent x acc" events] by auto
  next
    case False
    then have "e \<in> set events" using Cons.prems(1) by simp
    then show ?thesis using Cons.IH Cons.prems(2) by simp
  qed
qed

text \<open>A three-level inheritance chain of controllers: A extends B, B extends C.\<close>

definition chain_tracker :: tracker where
  "chain_tracker =
     \<lparr>dependencyGraph =
        [(''/src/a.controller.ts'', [''/src/b.controller.ts'']),
         (''/src/b.controller.ts'', [''/src/c.base.ts''])],
      reverseDependencyGraph =
        [(''/src/b.controller.ts'', [''/src/a.controller.ts'']),
         (''/src/c.base.ts'', [''/src/b.controller.ts''])],
      inheritanceGraph =
        [(''/src/a.controller.ts'', [''/src/b.controller.ts'']),
         (''/src/b.controller.ts'', [''/src/c.base.ts''])]\<rparr>"

lemma chain_affected:
  "getAffectedFiles chain_tracker ''/src/c.base.ts''
     = [''/src/b.controller.ts'', ''/src/a.controller.ts'']"
  by (simp add: getAffectedFiles_def chain_tracker_def getDependents_def getInheritors_def
      set_add_def)

lemma getAffectedFiles_self:
  "(p \<in> set (getAffectedFiles t p)) = ((p, p) \<in> (impact_edges t)\<^sup>+)"
  by (simp add: getAffectedFiles_trancl)

text \<open>
  Claim C10. When no cycle of dependency or inheritance edges (the edges the query follows:
  from a file to its dependents and to its inheritors) passes through a file, the result
  of \<^verbatim>\<open>getAffectedFiles\<close> for that file does not contain the file. The caller adds
  the changed file itself: after the first loop of \<^verbatim>\<open>processFileChanges\<close>, the affected set
  contains the path of every event of the batch that is not an \<^verbatim>\<open>unlink\<close>.
\<close>

theorem getAffectedFiles_excludes_start:
  "((p, p) \<notin> (impact_edges t)\<^sup>+ \<longrightarrow> p \<notin> set (getAffectedFiles t p))
   \<and> (\<forall>e \<in> set events. eventType e \<noteq> Unlink
         \<longrightarrow> eventPath e \<in> set (snd (fold collectEvent events (s, []))))"
  using fold_collectEvent_adds_path by (auto simp: getAffectedFiles_trancl)

text \<open>An initialized scanner with an empty cache and the chain as its graph.\<close>

definition idle_scanner :: scanner where
  "idle_scanner =
     \<lparr>project = Some [],
      cacheManager =
        \<lparr>cacheFilePath = ''/scramble-cache.json'', enabled = True, ttl = 86400000,
         hashAlgorithm = MD5,
         metadata = \<lparr>version = CACHE_VERSION, timestamp = Some 0, tsConfigHash = None,
                     controllers = [], dependencies = []\<rparr>,
         hashCollisions = [], console = []\<rparr>,
      dependencyTracker = Some chain_tracker,
      isInitialized = True,
      analyzerRuns = []\<rparr>"

theorem getAffectedFiles_excludes_start_witness:
  "(''/src/c.base.ts'', ''/src/c.base.ts'') \<notin> (impact_edges chain_tracker)\<^sup>+
   \<and> ''/src/c.base.ts'' \<notin> set (getAffectedFiles chain_tracker ''/src/c.base.ts'')
   \<and> ''/src/c.base.ts''
        \<in> set (snd (fold collectEvent
              [\<lparr>eventType = Change, eventPath = ''/src/c.base.ts'', eventHash = None\<rparr>]
              (idle_scanner, [])))"
proof -
  let ?e = "\<lparr>eventType = Change, eventPath = ''/src/c.base.ts'', eventHash = None\<rparr>"
  note T = getAffectedFiles_excludes_start
             [of "''/src/c.base.ts''" chain_tracker "[?e]" idle_scanner]
  have cyc: "(''/src/c.base.ts'', ''/src/c.base.ts'') \<notin> (impact_edges chain_tracker)\<^sup>+"
    unfolding getAffectedFiles_self[symmetric] by (simp add: chain_affected)
  have a: "''/src/c.base.ts'' \<notin> set (getAffectedFiles chain_tracker ''/src/c.base.ts'')"
    using T[THEN conjunct1] cyc by (rule mp)
  have m: "?e \<in> set [?e]" by simp
  have u: "eventType ?e \<noteq> Unlink" by simp
  have b: "eventPath ?e \<in> set (snd (fold collectEvent [?e] (idle_scanner, [])))"
    using T[THEN conjunct2, THEN bspec, OF m] u by (rule mp)
  then have b': "''/src/c.base.ts'' \<in> set (snd (fold collectEvent [?e] (idle_scanner, [])))"
    by (simp only: fileChangeEvent.simps)
  show ?thesis by (intro conjI cyc a b')
qed

section \<open>Symmetry of the dependency graph\<close>

text \<open>The invariant of the two indexes: a file is a dependent of \<open>d\<close> in the reverse index
  exactly when \<open>d\<close> is one of its dependencies in the forward index.\<close>

definition symmetric :: "tracker \<Rightarrow> bool" where
  "symmetric t =
     (\<forall>q d. (d \<in> set (getDependencies t q)) = (q \<in> set (getDependents t d)))"

text \<open>Membership in a reverse entry, and what the two loop bodies do to it.\<close>

definition reverse_has :: "jsset jsmap \<Rightarrow> path \<Rightarrow> path \<Rightarrow> bool" where
  "reverse_has reverse d q =
     (case map_of reverse d of Some dependents \<Rightarrow> q \<in> set dependents | None \<Rightarrow> False)"

lemma removeAll_Nil_member: "removeAll p xs = [] \<Longrightarrow> q \<in> set xs \<Longrightarrow> q = p"
  by (induction xs) (auto split: if_splits)

lemma reverse_has_drop:
  "reverse_has (dropReverseEdge p d reverse) d' q
     = (reverse_has reverse d' q \<and> \<not> (d' = d \<and> q = p))"
  by (auto simp: reverse_has_def dropReverseEdge_def set_delete_def update_conv' delete_conv'
      split: option.splits if_splits dest: removeAll_Nil_member)

lemma reverse_has_add:
  "reverse_has (addReverseEdge p d reverse) d' q
     = (reverse_has reverse d' q \<or> (d' = d \<and> q = p))"
  by (auto simp: reverse_has_def addReverseEdge_def set_set_add update_conv'
      split: option.splits if_splits)

lemma reverse_has_fold_drop:
  "reverse_has (fold (dropReverseEdge p) ds reverse) d' q
     = (reverse_has reverse d' q \<and> \<not> (d' \<in> set ds \<and> q = p))"
  by (induction ds arbitrary: reverse) (auto simp: reverse_has_drop)

lemma reverse_has_fold_add:
  "reverse_has (fold (addReverseEdge p) ds reverse) d' q
     = (reverse_has reverse d' q \<or> (d' \<in> set ds \<and> q = p))"
  by (induction ds arbitrary: reverse) (auto simp: reverse_has_add)

lemma getDependents_reverse_has:
  "(q \<in> set (getDependents t d)) = reverse_has (reverseDependencyGraph t) d q"
  by (simp add: getDependents_def reverse_has_def split: option.splits)

lemma analyzeDependencies_graphs:
  "dependencyGraph (snd (analyzeDependencies t sources p)) = dependencyGraph t
   \<and> reverseDependencyGraph (snd (analyzeDependencies t sources p)) = reverseDependencyGraph t"
  by (simp add: analyzeDependencies_def Let_def split: option.splits)

text \<open>\<^verbatim>\<open>updateDependency\<close> keeps the two indexes symmetric.\<close>

lemma updateDependency_symmetric:
  assumes "symmetric t"
  shows "symmetric (updateDependency t sources p)"
proof -
  let ?old = "getDependencies t p"
  let ?rev1 = "fold (dropReverseEdge p) ?old (reverseDependencyGraph t)"
  let ?t0 = "t\<lparr>reverseDependencyGraph := ?rev1\<rparr>"
  let ?new = "fst (analyzeDependencies ?t0 sources p)"
  let ?t1 = "snd (analyzeDependencies ?t0 sources p)"
  have rev1: "(case map_of (dependencyGraph t) p of
                 None \<Rightarrow> reverseDependencyGraph t
               | Some oldDeps \<Rightarrow> fold (dropReverseEdge p) oldDeps (reverseDependencyGraph t))
              = ?rev1"
    by (simp add: getDependencies_def split: option.splits)
  have u: "updateDependency t sources p
             = ?t1\<lparr>dependencyGraph := AList.update p (new_Set ?new) (dependencyGraph ?t1),
                   reverseDependencyGraph :=
                     fold (addReverseEdge p) ?new (reverseDependencyGraph ?t1)\<rparr>"
    unfolding updateDependency_def rev1 by (simp add: Let_def case_prod_unfold)
  have g: "dependencyGraph ?t1 = dependencyGraph t" "reverseDependencyGraph ?t1 = ?rev1"
    using analyzeDependencies_graphs[of ?t0 sources p] by simp_all
  have dg: "dependencyGraph (updateDependency t sources p)
              = AList.update p (new_Set ?new) (dependencyGraph t)"
    and rg: "reverseDependencyGraph (updateDependency t sources p)
              = fold (addReverseEdge p) ?new ?rev1"
    by (simp_all add: u g)
  have sym: "(d \<in> set (getDependencies t q)) = reverse_has (reverseDependencyGraph t) d q"
    for d q
    using assms by (simp add: symmetric_def getDependents_reverse_has)
  have fwd: "getDependencies (updateDependency t sources p) q
               = (if q = p then new_Set ?new else getDependencies t q)" for q
    unfolding getDependencies_def dg by (simp add: update_conv')
  have bwd: "(q \<in> set (getDependents (updateDependency t sources p) d))
               = ((reverse_has (reverseDependencyGraph t) d q
                    \<and> \<not> (d \<in> set ?old \<and> q = p))
                  \<or> (d \<in> set ?new \<and> q = p))" for q d
    unfolding getDependents_reverse_has rg
    by (simp add: reverse_has_fold_add reverse_has_fold_drop)
  show ?thesis
    unfolding symmetric_def
  proof (intro allI)
    fix q d
    show "(d \<in> set (getDependencies (updateDependency t sources p) q))
            = (q \<in> set (getDependents (updateDependency t sources p) d))"
      using sym[of d q] sym[of d p] by (auto simp: fwd bwd set_new_Set)
  qed
qed

text \<open>The graph after a scan of one controller that imports one DTO file.\<close>

definition ab_tracker :: tracker where
  "ab_tracker =
     \<lparr>dependencyGraph = [(''/src/a.controller.ts'', [''/src/b.dto.ts''])],
      reverseDependencyGraph = [(''/src/b.dto.ts'', [''/src/a.controller.ts''])],
      inheritanceGraph = []\<rparr>"

text \<open>
  Claim C2. \<^verbatim>\<open>removeDependency\<close> deletes the entry of the removed file from both indexes and
  takes the file out of the reverse entries of its own dependencies, but it leaves the file
  in the forward entry of every file that depends on it. On the graph of a controller that
  imports a DTO, which is symmetric, removing the DTO leaves the DTO among the controller's
  dependencies while the controller is no longer a dependent of the DTO: the graph is no
  longer symmetric.
\<close>

theorem removeDependency_breaks_symmetry:
  "symmetric ab_tracker
   \<and> ''/src/b.dto.ts''
        \<in> set (getDependencies (removeDependency ab_tracker ''/src/b.dto.ts'')
              ''/src/a.controller.ts'')
   \<and> ''/src/a.controller.ts''
        \<notin> set (getDependents (removeDependency ab_tracker ''/src/b.dto.ts'') ''/src/b.dto.ts'')
   \<and> \<not> symmetric (removeDependency ab_tracker ''/src/b.dto.ts'')"
proof -
  have s: "symmetric ab_tracker"
    by (auto simp: symmetric_def ab_tracker_def getDependencies_def getDependents_def
        split: if_splits)
  have f: "''/src/b.dto.ts''
        \<in> set (getDependencies (removeDependency ab_tracker ''/src/b.dto.ts'')
              ''/src/a.controller.ts'')"
    by (simp add: removeDependency_def ab_tracker_def getDependencies_def)
  have r: "''/src/a.controller.ts''
        \<notin> set (getDependents (removeDependency ab_tracker ''/src/b.dto.ts'') ''/src/b.dto.ts'')"
    by (simp add: removeDependency_def ab_tracker_def getDependents_def)
  have "\<not> symmetric (removeDependency ab_tracker ''/src/b.dto.ts'')"
    unfolding symmetric_def using f r by blast
  with s f r show ?thesis by blast
qed



section \<open>Staleness and collisions\<close>

text \<open>A cache manager that holds one controller, scanned with hash \<open>h1\<close> at 10 bytes, and
  a world in which every source file has a given size: the inputs of the examples.\<close>

definition users_record :: cached_controller where
  "users_record =
     \<lparr>filePath = ''/src/users.controller.ts'', fileHash = ''h1'', fileSize = 10,
      controllerInfo =
        \<lparr>ci_name = ''UsersController'', ci_path = ''users'',
         ci_methods = [(''findAll'', ''GET'', '''')], ci_hasGuards = False,
         ci_filePath = Some ''/src/users.controller.ts''\<rparr>,
      cdependencies = [''/src/user.dto.ts''], lastScanned = 0\<rparr>"

definition warm_cache :: cache_manager where
  "warm_cache =
     \<lparr>cacheFilePath = ''/scramble-cache.json'', enabled = True, ttl = 86400000,
      hashAlgorithm = MD5,
      metadata =
        \<lparr>version = CACHE_VERSION, timestamp = Some 0, tsConfigHash = None,
         controllers = [(''/src/users.controller.ts'', users_record)],
         dependencies = [(''/src/users.controller.ts'', [''/src/user.dto.ts''])]\<rparr>,
      hashCollisions = [], console = []\<rparr>"

definition sized_world :: "nat \<Rightarrow> world" where
  "sized_world n =
     \<lparr>now = 1000, cacheFiles = (\<lambda>file. None), writable = (\<lambda>file. True),
      existsSync = (\<lambda>file. True), statSize = (\<lambda>file. Some n),
      contentHash = (\<lambda>alg file. Some ''h1''), tsSource = (\<lambda>file. None)\<rparr>"

text \<open>
  Claim C3. \<^verbatim>\<open>hasFileChanged\<close> answers true for a path that is not in the store, true for a
  cached path whose current fingerprint differs from the cached one, and true when the
  fingerprints are equal and the size of the file on disk differs from the cached size.
  It answers false exactly when the path is cached, the fingerprints are equal and the
  file's size on disk is the cached size.
\<close>

theorem hasFileChanged_two_layer:
  "(getController cm file = None \<longrightarrow> fst (hasFileChanged cm w file currentHash))
   \<and> (\<forall>cached. getController cm file = Some cached \<and> fileHash cached \<noteq> currentHash
          \<longrightarrow> fst (hasFileChanged cm w file currentHash))
   \<and> (\<forall>cached n. getController cm file = Some cached \<and> fileHash cached = currentHash
            \<and> statSize w file = Some n \<and> n \<noteq> fileSize cached
          \<longrightarrow> fst (hasFileChanged cm w file currentHash))
   \<and> ((\<not> fst (hasFileChanged cm w file currentHash))
        = (\<exists>cached. getController cm file = Some cached \<and> fileHash cached = currentHash
             \<and> statSize w file = Some (fileSize cached)))"
  by (auto simp: hasFileChanged_def getController_def split: option.splits)

theorem hasFileChanged_two_layer_witness:
  "fst (hasFileChanged warm_cache (sized_world 10) ''/src/new.controller.ts'' ''h1'')
   \<and> fst (hasFileChanged warm_cache (sized_world 10) ''/src/users.controller.ts'' ''h2'')
   \<and> fst (hasFileChanged warm_cache (sized_world 12) ''/src/users.controller.ts'' ''h1'')
   \<and> \<not> fst (hasFileChanged warm_cache (sized_world 10) ''/src/users.controller.ts'' ''h1'')"
proof -
  have absent: "getController warm_cache ''/src/new.controller.ts'' = None"
    by (simp add: getController_def warm_cache_def)
  have present: "getController warm_cache ''/src/users.controller.ts'' = Some users_record"
    by (simp add: getController_def warm_cache_def)
  have a: "fst (hasFileChanged warm_cache (sized_world 10) ''/src/new.controller.ts'' ''h1'')"
    using hasFileChanged_two_layer
            [of warm_cache "''/src/new.controller.ts''" "sized_world 10" "''h1''"] absent
    by blast
  have b: "fst (hasFileChanged warm_cache (sized_world 10) ''/src/users.controller.ts'' ''h2'')"
  proof -
    have "fileHash users_record \<noteq> ''h2''" by (simp add: users_record_def)
    with hasFileChanged_two_layer
           [of warm_cache "''/src/users.controller.ts''" "sized_world 10" "''h2''"] present
    show ?thesis by blast
  qed
  have c: "fst (hasFileChanged warm_cache (sized_world 12) ''/src/users.controller.ts'' ''h1'')"
  proof -
    have "fileHash users_record = ''h1'' \<and> statSize (sized_world 12) ''/src/users.controller.ts'' = Some 12
            \<and> 12 \<noteq> fileSize users_record"
      by (simp add: users_record_def sized_world_def)
    with hasFileChanged_two_layer
           [of warm_cache "''/src/users.controller.ts''" "sized_world 12" "''h1''"] present
    show ?thesis by blast
  qed
  have d: "\<not> fst (hasFileChanged warm_cache (sized_world 10) ''/src/users.controller.ts'' ''h1'')"
  proof -
    have "fileHash users_record = ''h1''
            \<and> statSize (sized_world 10) ''/src/users.controller.ts'' = Some (fileSize users_record)"
      by (simp add: users_record_def sized_world_def)
    with hasFileChanged_two_layer
           [of warm_cache "''/src/users.controller.ts''" "sized_world 10" "''h1''"] present
    show ?thesis by blast
  qed
  show ?thesis by (intro conjI a b c d)
qed

lemma collisionCount_track:
  "collisionCount (trackHashCollision cm hash) h
     = (if h = hash then collisionCount cm hash + 1 else collisionCount cm h)"
  by (simp add: trackHashCollision_def collisionCount_def Let_def update_conv')

lemma console_track:
  "console (trackHashCollision cm hash)
     = (if 3 \<le> collisionCount cm hash
        then console cm @ [CollisionEscalation hash (collisionCount cm hash + 1)]
        else console cm)"
  by (simp add: trackHashCollision_def Let_def)

text \<open>The escalation lines printed so far for one hash value.\<close>

definition escalations :: "cache_manager \<Rightarrow> string \<Rightarrow> console_line list" where
  "escalations cm hash =
     filter (\<lambda>line. case line of CollisionEscalation h n \<Rightarrow> h = hash | _ \<Rightarrow> False)
       (console cm)"

text \<open>
  Claim C7, as stated, fails: after three collisions on one hash value, counted from none,
  the count for that value is 3 and no escalation has been printed.
\<close>

theorem collision_escalation_at_three_counterexample:
  "collisionCount
     (trackHashCollision (trackHashCollision (trackHashCollision warm_cache ''h1'') ''h1'') ''h1'')
     ''h1'' = 3
   \<and> escalations
       (trackHashCollision (trackHashCollision (trackHashCollision warm_cache ''h1'') ''h1'') ''h1'')
       ''h1'' = []"
proof -
  have z: "collisionCount warm_cache ''h1'' = 0" "escalations warm_cache ''h1'' = []"
    by (simp_all add: collisionCount_def escalations_def warm_cache_def)
  show ?thesis
    using z by (simp add: collisionCount_track escalations_def console_track)
qed

lemma collisionCount_console [simp]:
  "collisionCount (cm\<lparr>console := lines\<rparr>) h = collisionCount cm h"
  by (simp add: collisionCount_def)

lemma escalations_track:
  "escalations (trackHashCollision cm hash) hash
     = (if 3 \<le> collisionCount cm hash
        then escalations cm hash @ [CollisionEscalation hash (collisionCount cm hash + 1)]
        else escalations cm hash)"
  by (simp add: console_track escalations_def)

lemma hasFileChanged_collision:
  assumes "getController cm file = Some cached" "fileHash cached = hash"
    "statSize w file = Some n" "n \<noteq> fileSize cached"
  shows "hasFileChanged cm w file hash
           = (True, trackHashCollision
                      (cm\<lparr>console := console cm @
                           [CollisionDetected file hash (fileSize cached) n]\<rparr>) hash)"
  using assms by (auto simp: hasFileChanged_def getController_def)

text \<open>
  Claim C7, amended. \<^verbatim>\<open>trackHashCollision\<close> adds one to the count of its hash value and
  leaves the other counts alone; it prints the escalation exactly when the count it finds,
  before adding, is 3 or more, so the first escalation comes with the fourth collision on
  a hash value. Every collision that \<^verbatim>\<open>hasFileChanged\<close> detects (equal fingerprints,
  different sizes) is counted this way.
\<close>

theorem collision_escalation_from_fourth:
  "collisionCount (trackHashCollision cm hash) hash = collisionCount cm hash + 1
   \<and> (\<forall>h. h \<noteq> hash \<longrightarrow> collisionCount (trackHashCollision cm hash) h = collisionCount cm h)
   \<and> escalations (trackHashCollision cm hash) hash
       = (if 3 \<le> collisionCount cm hash
          then escalations cm hash @ [CollisionEscalation hash (collisionCount cm hash + 1)]
          else escalations cm hash)
   \<and> (\<forall>cached n. getController cm file = Some cached \<and> fileHash cached = hash
          \<and> statSize w file = Some n \<and> n \<noteq> fileSize cached
        \<longrightarrow> collisionCount (snd (hasFileChanged cm w file hash)) hash
              = collisionCount cm hash + 1)"
proof (intro conjI allI impI)
  show "collisionCount (trackHashCollision cm hash) hash = collisionCount cm hash + 1"
    by (simp add: collisionCount_track)
  show "collisionCount (trackHashCollision cm hash) h = collisionCount cm h"
    if "h \<noteq> hash" for h
    using that by (simp add: collisionCount_track)
  show "escalations (trackHashCollision cm hash) hash
       = (if 3 \<le> collisionCount cm hash
          then escalations cm hash @ [CollisionEscalation hash (collisionCount cm hash + 1)]
          else escalations cm hash)"
    by (rule escalations_track)
  show "collisionCount (snd (hasFileChanged cm w file hash)) hash = collisionCount cm hash + 1"
    if "getController cm file = Some cached \<and> fileHash cached = hash
          \<and> statSize w file = Some n \<and> n \<noteq> fileSize cached" for cached n
  proof -
    have "hasFileChanged cm w file hash
           = (True, trackHashCollision
                      (cm\<lparr>console := console cm @
                           [CollisionDetected file hash (fileSize cached) n]\<rparr>) hash)"
      using that by (intro hasFileChanged_collision) simp_all
    then show ?thesis by (simp add: collisionCount_track)
  qed
qed

theorem collision_escalation_from_fourth_witness:
  "collisionCount (trackHashCollision warm_cache ''h1'') ''h1'' = 1
   \<and> collisionCount (trackHashCollision warm_cache ''h1'') ''h2'' = 0
   \<and> escalations (trackHashCollision warm_cache ''h1'') ''h1'' = []
   \<and> escalations
       (trackHashCollision
         (trackHashCollision (trackHashCollision (trackHashCollision warm_cache ''h1'') ''h1'')
            ''h1'') ''h1'') ''h1''
       = [CollisionEscalation ''h1'' 4]
   \<and> collisionCount
       (snd (hasFileChanged warm_cache (sized_world 12) ''/src/users.controller.ts'' ''h1''))
       ''h1'' = 1"
proof -
  let ?c3 = "trackHashCollision (trackHashCollision (trackHashCollision warm_cache ''h1'') ''h1'') ''h1''"
  have z: "collisionCount warm_cache ''h1'' = 0" "collisionCount warm_cache ''h2'' = 0"
    "escalations warm_cache ''h1'' = []"
    by (simp_all add: collisionCount_def escalations_def warm_cache_def)
  note T0 = collision_escalation_from_fourth
              [of warm_cache "''h1''" "''/src/users.controller.ts''" "sized_world 12"]
  have a: "collisionCount (trackHashCollision warm_cache ''h1'') ''h1'' = 1"
    using T0[THEN conjunct1] z by simp
  have ne: "''h2'' \<noteq> ''h1''" by simp
  have b: "collisionCount (trackHashCollision warm_cache ''h1'') ''h2'' = 0"
    using T0[THEN conjunct2, THEN conjunct1, THEN spec, THEN mp, OF ne] z by simp
  have c: "escalations (trackHashCollision warm_cache ''h1'') ''h1'' = []"
    using T0[THEN conjunct2, THEN conjunct2, THEN conjunct1] z by simp
  have c3: "collisionCount ?c3 ''h1'' = 3" "escalations ?c3 ''h1'' = []"
    using z by (simp_all add: collisionCount_track escalations_track)
  have d: "escalations (trackHashCollision ?c3 ''h1'') ''h1'' = [CollisionEscalation ''h1'' 4]"
    using collision_escalation_from_fourth
            [of ?c3 "''h1''" "''/src/users.controller.ts''" "sized_world 12",
             THEN conjunct2, THEN conjunct2, THEN conjunct1] c3
    by simp
  have pre: "getController warm_cache ''/src/users.controller.ts'' = Some users_record
      \<and> fileHash users_record = ''h1''
      \<and> statSize (sized_world 12) ''/src/users.controller.ts'' = Some 12
      \<and> 12 \<noteq> fileSize users_record"
    by (simp add: getController_def warm_cache_def users_record_def sized_world_def)
  have e: "collisionCount
       (snd (hasFileChanged warm_cache (sized_world 12) ''/src/users.controller.ts'' ''h1''))
       ''h1'' = 1"
    using T0[THEN conjunct2, THEN conjunct2, THEN conjunct2, THEN spec, THEN spec, THEN mp, OF pre] z
    by simp
  show ?thesis by (intro conjI a b c d e)
qed



section \<open>Loading the cache\<close>

text \<open>Cache files that \<^verbatim>\<open>load\<close> must reject: one written by another version, and one written
  at time 0 and read at time 1000 by a manager whose time-to-live is 500.\<close>

definition old_version_file :: cache_file where
  "old_version_file =
     Doc \<lparr>p_version = Some ''0.9.0'', p_timestamp = Some 999, p_tsConfigHash = None,
          p_controllers = Some [(''/src/users.controller.ts'', users_record)],
          p_dependencies = Some [(''/src/users.controller.ts'', [''/src/user.dto.ts''])]\<rparr>"

definition expired_file :: cache_file where
  "expired_file =
     Doc \<lparr>p_version = Some CACHE_VERSION, p_timestamp = Some 0, p_tsConfigHash = None,
          p_controllers = Some [(''/src/users.controller.ts'', users_record)],
          p_dependencies = Some [(''/src/users.controller.ts'', [''/src/user.dto.ts''])]\<rparr>"

definition disk_with :: "cache_file \<Rightarrow> world" where
  "disk_with content =
     (sized_world 10)\<lparr>cacheFiles := (\<lambda>file. None)(''/scramble-cache.json'' \<mapsto> content)\<rparr>"

definition fresh_manager :: cache_manager where
  "fresh_manager = newCacheManager (sized_world 10) ''/scramble-cache.json'' True 500 MD5"

text \<open>
  Claim C5, as stated, fails for a manager whose store is not empty when \<^verbatim>\<open>load\<close> is called
  (the scanner calls it again when it is initialized anew after \<^verbatim>\<open>cleanup\<close>): with no cache
  file, and with a cache file of another version, \<^verbatim>\<open>load\<close> returns false and the store
  still holds its controller.
\<close>

theorem load_failure_empties_store_counterexample:
  "\<not> fst (load warm_cache (sized_world 10))
   \<and> controllers (metadata (snd (load warm_cache (sized_world 10)))) \<noteq> []
   \<and> \<not> fst (load warm_cache (disk_with old_version_file))
   \<and> controllers (metadata (snd (load warm_cache (disk_with old_version_file)))) \<noteq> []"
  by (simp add: load_def warm_cache_def sized_world_def disk_with_def old_version_file_def
      CACHE_VERSION_def)

text \<open>
  Claim C5, amended. On a missing cache file, on content that does not parse, on a version
  other than the expected one and on a snapshot older than the time-to-live, \<^verbatim>\<open>load\<close>
  returns false and leaves the manager, and with it the in-memory store, exactly as it
  was: nothing of the file is taken over, and the four cases are treated alike. A store
  that was empty before the call, as that of a new manager, is empty after it.
\<close>

theorem load_fails_closed:
  "cacheFiles w (cacheFilePath cm) = None
   \<or> cacheFiles w (cacheFilePath cm) = Some Unparseable
   \<or> cacheFiles w (cacheFilePath cm) = Some NonObject
   \<or> (\<exists>parsed. cacheFiles w (cacheFilePath cm) = Some (Doc parsed)
         \<and> (p_version parsed \<noteq> Some CACHE_VERSION
            \<or> (\<exists>ts. p_timestamp parsed = Some ts \<and> now w - ts > ttl cm)))
   \<longrightarrow> load cm w = (False, cm)"
  by (auto simp: load_def)

theorem load_fails_closed_witness:
  "load fresh_manager (sized_world 10) = (False, fresh_manager)
   \<and> load fresh_manager (disk_with Unparseable) = (False, fresh_manager)
   \<and> load fresh_manager (disk_with old_version_file) = (False, fresh_manager)
   \<and> load fresh_manager (disk_with expired_file) = (False, fresh_manager)
   \<and> controllers (metadata fresh_manager) = []
   \<and> dependencies (metadata fresh_manager) = []"
proof -
  have p: "cacheFilePath fresh_manager = ''/scramble-cache.json''"
    "ttl fresh_manager = 500"
    "controllers (metadata fresh_manager) = []"
    "dependencies (metadata fresh_manager) = []"
    by (simp_all add: fresh_manager_def newCacheManager_def)
  have a: "load fresh_manager (sized_world 10) = (False, fresh_manager)"
  proof -
    have "cacheFiles (sized_world 10) (cacheFilePath fresh_manager) = None"
      by (simp add: sized_world_def)
    with load_fails_closed[of "sized_world 10" fresh_manager] show ?thesis by blast
  qed
  have b: "load fresh_manager (disk_with Unparseable) = (False, fresh_manager)"
  proof -
    have "cacheFiles (disk_with Unparseable) (cacheFilePath fresh_manager) = Some Unparseable"
      by (simp add: p disk_with_def sized_world_def)
    with load_fails_closed[of "disk_with Unparseable" fresh_manager] show ?thesis by blast
  qed
  have c: "load fresh_manager (disk_with old_version_file) = (False, fresh_manager)"
  proof -
    have "\<exists>parsed. cacheFiles (disk_with old_version_file) (cacheFilePath fresh_manager)
                = Some (Doc parsed) \<and> p_version parsed \<noteq> Some CACHE_VERSION"
      by (simp add: p disk_with_def sized_world_def old_version_file_def CACHE_VERSION_def)
    with load_fails_closed[of "disk_with old_version_file" fresh_manager]
    show ?thesis by blast
  qed
  have d: "load fresh_manager (disk_with expired_file) = (False, fresh_manager)"
  proof -
    have "\<exists>parsed. cacheFiles (disk_with expired_file) (cacheFilePath fresh_manager)
                = Some (Doc parsed)
              \<and> (\<exists>ts. p_timestamp parsed = Some ts
                   \<and> now (disk_with expired_file) - ts > ttl fresh_manager)"
      by (simp add: p disk_with_def sized_world_def expired_file_def)
    with load_fails_closed[of "disk_with expired_file" fresh_manager]
    show ?thesis by blast
  qed
  show ?thesis by (intro conjI a b c d p(3) p(4))
qed

section \<open>Saving and loading\<close>

lemma update_fresh_key: "k \<notin> fst ` set al \<Longrightarrow> AList.update k v al = al @ [(k, v)]"
  by (induction al) auto

lemma fold_update_distinct:
  "distinct (map fst (acc @ es))
     \<Longrightarrow> fold (\<lambda>(k, v) m. AList.update k v m) es acc = acc @ es"
proof (induction es arbitrary: acc)
  case Nil
  show ?case by simp
next
  case (Cons e es)
  obtain k v where e: "e = (k, v)" by (cases e)
  have fresh: "k \<notin> fst ` set acc" using Cons.prems e by auto
  have "distinct (map fst ((acc @ [(k, v)]) @ es))" using Cons.prems e by simp
  then have "fold (\<lambda>(k, v) m. AList.update k v m) es (acc @ [(k, v)]) = (acc @ [(k, v)]) @ es"
    by (rule Cons.IH)
  then show ?case using e fresh by (simp add: update_fresh_key)
qed

lemma new_Map_wf: "wf_map m \<Longrightarrow> new_Map m = m"
  using fold_update_distinct[of "[]" m] by (simp add: wf_map_def new_Map_def)

lemma fold_update_keeps_distinct:
  "distinct (map fst acc) \<Longrightarrow> distinct (map fst (fold (\<lambda>(k, v) m. AList.update k v m) es acc))"
  by (induction es arbitrary: acc) (auto simp: distinct_update)

lemma wf_new_Map: "wf_map (new_Map es)"
  using fold_update_keeps_distinct[of "[]" es] by (simp add: wf_map_def new_Map_def)

lemma map_of_map_values:
  "map_of (map (\<lambda>(k, v). (k, f v)) al) p = map_option f (map_of al p)"
  by (induction al) auto

lemma wf_map_values: "wf_map (map (\<lambda>(k, v). (k, f v)) al) = wf_map al"
  by (simp add: wf_map_def case_prod_unfold comp_def)

lemma save_writes:
  "enabled cm \<Longrightarrow> writable w (cacheFilePath cm)
     \<Longrightarrow> save cm w = (True, write_file w (cacheFilePath cm) (Doc (serializable cm w)))"
  by (simp add: save_def writeFileSync_def)

text \<open>
  Claim C4. When \<^verbatim>\<open>save\<close> has written the cache file (the cache is enabled and the file can
  be written), a manager that reads this file within its time-to-live loads it, and its
  store has the same paths, the same record (fingerprint and size with it) for each path,
  and the same set of dependencies for each path, and the keys of its maps are unique.
  The store that is saved is one the manager's operations build: its maps have unique
  keys and its version is the expected one.
\<close>

theorem save_load_roundtrip:
  assumes en: "enabled cm" and wr: "writable w (cacheFilePath cm)"
    and wfc: "wf_map (controllers (metadata cm))"
    and wfd: "wf_map (dependencies (metadata cm))"
    and ver: "version (metadata cm) = CACHE_VERSION"
    and en': "enabled reader" and same: "cacheFilePath reader = cacheFilePath cm"
    and disk: "cacheFiles w2 (cacheFilePath cm) = cacheFiles (snd (save cm w)) (cacheFilePath cm)"
    and young: "now w2 - now w \<le> ttl reader"
  shows "fst (save cm w) \<and> fst (load reader w2)
    \<and> fst ` set (controllers (metadata (snd (load reader w2))))
        = fst ` set (controllers (metadata cm))
    \<and> map_of (controllers (metadata (snd (load reader w2))))
        = map_of (controllers (metadata cm))
    \<and> (\<forall>p. map_option set (map_of (dependencies (metadata (snd (load reader w2)))) p)
            = map_option set (map_of (dependencies (metadata cm)) p))
    \<and> wf_map (controllers (metadata (snd (load reader w2))))
    \<and> wf_map (dependencies (metadata (snd (load reader w2))))"
proof -
  let ?doc = "serializable cm w"
  have sv: "save cm w = (True, write_file w (cacheFilePath cm) (Doc ?doc))"
    using en wr by (rule save_writes)
  have content: "cacheFiles w2 (cacheFilePath reader) = Some (Doc ?doc)"
    using disk same by (simp add: sv write_file_def)
  have pc: "p_controllers ?doc = Some (controllers (metadata cm))"
    using wfc by (simp add: serializable_def new_Map_wf)
  have "map (\<lambda>(key, value). (key, Array_from value)) (dependencies (metadata cm))
          = dependencies (metadata cm)"
    by (simp add: Array_from_def case_prod_unfold)
  then have pd: "p_dependencies ?doc = Some (dependencies (metadata cm))"
    using wfd by (simp add: serializable_def new_Map_wf)
  have pv: "p_version ?doc = Some CACHE_VERSION" "p_timestamp ?doc = Some (now w)"
    using ver by (simp_all add: serializable_def)
  have wfd': "wf_map (map (\<lambda>(key, value). (key, new_Set value)) (dependencies (metadata cm)))"
    using wfd by (simp add: wf_map_values)
  have ld: "load reader w2
     = (True, reader\<lparr>metadata :=
          \<lparr>version = CACHE_VERSION, timestamp = Some (now w),
           tsConfigHash = p_tsConfigHash ?doc,
           controllers = controllers (metadata cm),
           dependencies = map (\<lambda>(key, value). (key, new_Set value))
                            (dependencies (metadata cm))\<rparr>\<rparr>)"
    using en' young wfc wfd'
    by (simp add: load_def content pc pd pv new_Map_wf)
  show ?thesis
    using wfc wfd'
    by (simp add: sv ld map_of_map_values set_new_Set option.map_comp comp_def)
qed


theorem save_load_roundtrip_witness:
  "fst (save warm_cache (sized_world 10))
   \<and> fst (load fresh_manager ((snd (save warm_cache (sized_world 10)))\<lparr>now := 1400\<rparr>))
   \<and> map_of (controllers (metadata (snd (load fresh_manager
          ((snd (save warm_cache (sized_world 10)))\<lparr>now := 1400\<rparr>)))))
        ''/src/users.controller.ts'' = Some users_record
   \<and> map_option set (map_of (dependencies (metadata (snd (load fresh_manager
          ((snd (save warm_cache (sized_world 10)))\<lparr>now := 1400\<rparr>)))))
        ''/src/users.controller.ts'') = Some {''/src/user.dto.ts''}"
proof -
  let ?w2 = "(snd (save warm_cache (sized_world 10)))\<lparr>now := 1400\<rparr>"
  have h: "enabled warm_cache" "writable (sized_world 10) (cacheFilePath warm_cache)"
    "wf_map (controllers (metadata warm_cache))"
    "wf_map (dependencies (metadata warm_cache))"
    "version (metadata warm_cache) = CACHE_VERSION"
    "enabled fresh_manager" "cacheFilePath fresh_manager = cacheFilePath warm_cache"
    by (simp_all add: warm_cache_def sized_world_def wf_map_def fresh_manager_def
        newCacheManager_def)
  have d: "cacheFiles ?w2 (cacheFilePath warm_cache)
             = cacheFiles (snd (save warm_cache (sized_world 10))) (cacheFilePath warm_cache)"
    by simp
  have y: "now ?w2 - now (sized_world 10) \<le> ttl fresh_manager"
    by (simp add: sized_world_def fresh_manager_def newCacheManager_def)
  note T = save_load_roundtrip[OF h d y]
  have c: "map_of (controllers (metadata warm_cache)) ''/src/users.controller.ts''
             = Some users_record"
    "map_option set (map_of (dependencies (metadata warm_cache)) ''/src/users.controller.ts'')
       = Some {''/src/user.dto.ts''}"
    by (simp_all add: warm_cache_def)
  show ?thesis
    using T c by metis
qed



text \<open>The maps of a store have unique keys from the start and after every operation of the
  cache manager.\<close>

lemma wf_map_empty: "wf_map []"
  by (simp add: wf_map_def)

lemma wf_map_update: "wf_map m \<Longrightarrow> wf_map (AList.update k v m)"
  by (simp add: wf_map_def distinct_update)

lemma wf_map_delete: "wf_map m \<Longrightarrow> wf_map (AList.delete k m)"
  by (simp add: wf_map_def distinct_delete)

lemma wf_map_filter: "wf_map m \<Longrightarrow> wf_map (filter P m)"
  by (simp add: wf_map_def distinct_map_filter)

lemma wf_setController:
  "wf_map (controllers (metadata cm))
     \<Longrightarrow> wf_map (controllers (metadata (setController cm file cached)))"
  by (simp add: setController_def wf_map_update)

lemma wf_removeController:
  "wf_map (controllers (metadata cm)) \<Longrightarrow> wf_map (dependencies (metadata cm))
     \<Longrightarrow> wf_map (controllers (metadata (removeController cm file)))
         \<and> wf_map (dependencies (metadata (removeController cm file)))"
  by (simp add: removeController_def wf_map_delete wf_map_filter wf_map_values)

lemma wf_addDependency:
  "wf_map (dependencies (metadata cm))
     \<Longrightarrow> wf_map (dependencies (metadata (addDependency cm controllerPath dependencyPath)))"
  by (simp add: addDependency_def wf_map_update split: option.splits)

lemma wf_load:
  "fst (load cm w)
     \<Longrightarrow> wf_map (controllers (metadata (snd (load cm w))))
         \<and> wf_map (dependencies (metadata (snd (load cm w))))
         \<and> version (metadata (snd (load cm w))) = CACHE_VERSION"
  by (auto simp: load_def wf_new_Map split: option.splits cache_file.splits if_splits)

section \<open>How the cache file is written\<close>

text \<open>
  The calls that \<^verbatim>\<open>save\<close> makes on the file system, in order: when the cache is enabled, one
  \<^verbatim>\<open>fs.writeFileSync\<close> on the cache path with the whole document.
\<close>

datatype fs_call = WriteFileSync path cache_file | RenameSync path path

definition save_calls :: "cache_manager \<Rightarrow> world \<Rightarrow> fs_call list" where
  "save_calls cm w =
     (if \<not> enabled cm then []
      else [WriteFileSync (cacheFilePath cm) (Doc (serializable cm w))])"

text \<open>
  What the calls do to the disk. \<^verbatim>\<open>fs.writeFileSync\<close> opens its target with flag \<^verbatim>\<open>w\<close>, which
  truncates the file, and then writes the text: a process killed during the call leaves a
  proper prefix of the text, which is no JSON document. \<^verbatim>\<open>fs.renameSync\<close> replaces its
  target in one step. \<open>crash_states\<close> lists the disks on which a process killed before,
  during or after any of the calls leaves the files.
\<close>

fun run_call :: "world \<Rightarrow> fs_call \<Rightarrow> world option" where
  "run_call w (WriteFileSync file content) = writeFileSync w file content"
| "run_call w (RenameSync source target) =
     (case cacheFiles w source of
        None \<Rightarrow> None
      | Some content \<Rightarrow>
          Some (w\<lparr>cacheFiles := (cacheFiles w)(source := None, target \<mapsto> content)\<rparr>))"

fun killed_during :: "world \<Rightarrow> fs_call \<Rightarrow> world list" where
  "killed_during w (WriteFileSync file content) =
     (if writable w file then [write_file w file Unparseable] else [])"
| "killed_during w (RenameSync source target) = []"

fun crash_states :: "world \<Rightarrow> fs_call list \<Rightarrow> world list" where
  "crash_states w [] = [w]"
| "crash_states w (call # calls) =
     w # killed_during w call @
       (case run_call w call of None \<Rightarrow> [] | Some w' \<Rightarrow> crash_states w' calls)"

text \<open>The mechanism the specification asks for, in the same terms: write the document to
  a temporary file, then rename the temporary file onto the target.\<close>

definition write_temp_then_replace :: "path \<Rightarrow> path \<Rightarrow> cache_file \<Rightarrow> fs_call list" where
  "write_temp_then_replace temp target content =
     [WriteFileSync temp content, RenameSync temp target]"

lemma write_temp_then_replace_atomic:
  assumes "temp \<noteq> target" "s \<in> set (crash_states w (write_temp_then_replace temp target content))"
  shows "cacheFiles s target = cacheFiles w target \<or> cacheFiles s target = Some content"
  using assms
  by (auto simp: write_temp_then_replace_def writeFileSync_def write_file_def
      split: if_splits)

lemma save_runs_save_calls:
  "save cm w =
     (case save_calls cm w of
        [] \<Rightarrow> (False, w)
      | call # calls \<Rightarrow>
          (case run_call w call of None \<Rightarrow> (False, w) | Some w' \<Rightarrow> (True, w')))"
  by (simp add: save_def save_calls_def)

text \<open>The disk after a first, completed \<^verbatim>\<open>save\<close>.\<close>

definition saved_world :: world where
  "saved_world = snd (save warm_cache (sized_world 10))"

text \<open>
  Claim C8, as stated, fails: the cache file holds a complete snapshot, and a process
  killed during the write of the next \<^verbatim>\<open>save\<close> leaves a file at the cache path that does not
  parse.
\<close>

theorem save_not_atomic_counterexample:
  "cacheFiles saved_world ''/scramble-cache.json''
     = Some (Doc (serializable warm_cache (sized_world 10)))
   \<and> cacheFiles (crash_states saved_world (save_calls warm_cache saved_world) ! 1)
       ''/scramble-cache.json'' = Some Unparseable"
  by (simp add: saved_world_def save_def save_calls_def writeFileSync_def write_file_def
      warm_cache_def sized_world_def)

text \<open>
  Claim C8, amended. \<^verbatim>\<open>save\<close> is one \<^verbatim>\<open>fs.writeFileSync\<close> on the cache path and nothing else:
  no other path, such as a temporary file, is written or renamed at any moment, and at
  every moment the cache path holds the old content, a truncated file or the whole new
  document. When the cache is enabled and the file can be written, the truncated file is
  among the states a kill can leave, and a completed \<^verbatim>\<open>save\<close> leaves the whole document.
  A truncated file does not parse, so the next \<^verbatim>\<open>load\<close> of any manager on that path
  returns false and keeps its store.
\<close>

theorem save_writes_in_place:
  "save cm w =
     (case save_calls cm w of
        [] \<Rightarrow> (False, w)
      | call # calls \<Rightarrow>
          (case run_call w call of None \<Rightarrow> (False, w) | Some w' \<Rightarrow> (True, w')))
   \<and> (\<forall>s \<in> set (crash_states w (save_calls cm w)).
        (\<forall>other. other \<noteq> cacheFilePath cm \<longrightarrow> cacheFiles s other = cacheFiles w other)
        \<and> (cacheFiles s (cacheFilePath cm) = cacheFiles w (cacheFilePath cm)
           \<or> cacheFiles s (cacheFilePath cm) = Some Unparseable
           \<or> cacheFiles s (cacheFilePath cm) = Some (Doc (serializable cm w))))
   \<and> (enabled cm \<and> writable w (cacheFilePath cm)
        \<longrightarrow> write_file w (cacheFilePath cm) Unparseable
              \<in> set (crash_states w (save_calls cm w))
            \<and> save cm w
                = (True, write_file w (cacheFilePath cm) (Doc (serializable cm w))))
   \<and> (\<forall>reader. cacheFilePath reader = cacheFilePath cm
        \<longrightarrow> load reader (write_file w (cacheFilePath cm) Unparseable) = (False, reader))"
proof (intro conjI)
  show "save cm w =
     (case save_calls cm w of
        [] \<Rightarrow> (False, w)
      | call # calls \<Rightarrow>
          (case run_call w call of None \<Rightarrow> (False, w) | Some w' \<Rightarrow> (True, w')))"
    by (rule save_runs_save_calls)
  show "\<forall>s \<in> set (crash_states w (save_calls cm w)).
        (\<forall>other. other \<noteq> cacheFilePath cm \<longrightarrow> cacheFiles s other = cacheFiles w other)
        \<and> (cacheFiles s (cacheFilePath cm) = cacheFiles w (cacheFilePath cm)
           \<or> cacheFiles s (cacheFilePath cm) = Some Unparseable
           \<or> cacheFiles s (cacheFilePath cm) = Some (Doc (serializable cm w)))"
    by (auto simp: save_calls_def writeFileSync_def write_file_def split: if_splits)
  show "enabled cm \<and> writable w (cacheFilePath cm)
        \<longrightarrow> write_file w (cacheFilePath cm) Unparseable
              \<in> set (crash_states w (save_calls cm w))
            \<and> save cm w
                = (True, write_file w (cacheFilePath cm) (Doc (serializable cm w)))"
    by (simp add: save_calls_def save_def writeFileSync_def)
  show "\<forall>reader. cacheFilePath reader = cacheFilePath cm
        \<longrightarrow> load reader (write_file w (cacheFilePath cm) Unparseable) = (False, reader)"
    by (simp add: load_def write_file_def)
qed

theorem save_writes_in_place_witness:
  "cacheFiles (crash_states (sized_world 10) (save_calls warm_cache (sized_world 10)) ! 1)
     ''/src/users.controller.ts'' = None
   \<and> write_file (sized_world 10) ''/scramble-cache.json'' Unparseable
        \<in> set (crash_states (sized_world 10) (save_calls warm_cache (sized_world 10)))
   \<and> fst (save warm_cache (sized_world 10))
   \<and> load fresh_manager (write_file (sized_world 10) ''/scramble-cache.json'' Unparseable)
        = (False, fresh_manager)"
proof -
  note T = save_writes_in_place[of warm_cache "sized_world 10"]
  have p: "cacheFilePath warm_cache = ''/scramble-cache.json''"
    "cacheFilePath fresh_manager = ''/scramble-cache.json''"
    by (simp_all add: warm_cache_def fresh_manager_def newCacheManager_def)
  have h: "enabled warm_cache \<and> writable (sized_world 10) (cacheFilePath warm_cache)"
    by (simp add: warm_cache_def sized_world_def)
  have m: "crash_states (sized_world 10) (save_calls warm_cache (sized_world 10)) ! 1
             \<in> set (crash_states (sized_world 10) (save_calls warm_cache (sized_world 10)))"
    using h by (intro nth_mem) (simp add: save_calls_def writeFileSync_def)
  have o: "''/src/users.controller.ts'' \<noteq> cacheFilePath warm_cache"
    by (simp add: p)
  have a: "cacheFiles (crash_states (sized_world 10) (save_calls warm_cache (sized_world 10)) ! 1)
     ''/src/users.controller.ts'' = None"
  proof -
    have "cacheFiles (crash_states (sized_world 10) (save_calls warm_cache (sized_world 10)) ! 1)
            ''/src/users.controller.ts''
          = cacheFiles (sized_world 10) ''/src/users.controller.ts''"
      using T[THEN conjunct2, THEN conjunct1, THEN bspec, OF m] o by blast
    then show ?thesis by (simp add: sized_world_def)
  qed
  have b: "write_file (sized_world 10) ''/scramble-cache.json'' Unparseable
        \<in> set (crash_states (sized_world 10) (save_calls warm_cache (sized_world 10)))
      \<and> fst (save warm_cache (sized_world 10))"
    using T[THEN conjunct2, THEN conjunct2, THEN conjunct1, THEN mp, OF h] by (simp add: p)
  have c: "load fresh_manager (write_file (sized_world 10) ''/scramble-cache.json'' Unparseable)
        = (False, fresh_manager)"
    using T[THEN conjunct2, THEN conjunct2, THEN conjunct2, THEN spec, of fresh_manager]
    by (simp add: p)
  show ?thesis using a b c by blast
qed



section \<open>Reuse of cached results\<close>

lemma hasFileChanged_unchanged:
  "\<not> fst (hasFileChanged cm w file h) \<Longrightarrow> snd (hasFileChanged cm w file h) = cm"
  by (auto simp: hasFileChanged_def split: option.splits if_splits)

lemma scanFile_hit:
  assumes "project s = Some sources"
    and "getController (cacheManager s) file = Some cached"
    and "\<not> fst (hasFileChanged (cacheManager s) w file (calculateHash (cacheManager s) w file))"
  shows "scanFile w s file = Inr (Some (controllerInfo cached), s)"
  using assms hasFileChanged_unchanged[OF assms(3)]
  by (simp add: scanFile_def Let_def case_prod_unfold)

text \<open>What stays true of a file's record while other files are handled: the project is
  there, the record of the file is the given one, and the hash algorithm is the given
  one.\<close>

definition keeps_record :: "scanner \<Rightarrow> path \<Rightarrow> cached_controller \<Rightarrow> hashAlg \<Rightarrow> bool" where
  "keeps_record s file cached alg =
     (project s \<noteq> None \<and> getController (cacheManager s) file = Some cached
      \<and> hashAlgorithm (cacheManager s) = alg)"

lemma trackHashCollision_frame:
  "metadata (trackHashCollision cm h) = metadata cm
   \<and> hashAlgorithm (trackHashCollision cm h) = hashAlgorithm cm"
  by (simp add: trackHashCollision_def Let_def)

lemma hasFileChanged_frame:
  "metadata (snd (hasFileChanged cm w g h)) = metadata cm
   \<and> hashAlgorithm (snd (hasFileChanged cm w g h)) = hashAlgorithm cm"
  by (simp add: hasFileChanged_def trackHashCollision_frame split: option.splits)

lemma removeController_other:
  "g \<noteq> file \<Longrightarrow> getController (removeController cm g) file = getController cm file"
  by (simp add: removeController_def getController_def delete_conv')

lemma removeController_alg: "hashAlgorithm (removeController cm g) = hashAlgorithm cm"
  by (simp add: removeController_def)

lemma setController_other:
  "g \<noteq> file \<Longrightarrow> getController (setController cm g c) file = getController cm file"
  by (simp add: setController_def getController_def update_conv')

lemma addDependency_frame:
  "getController (addDependency cm a b) file = getController cm file
   \<and> hashAlgorithm (addDependency cm a b) = hashAlgorithm cm"
  by (simp add: addDependency_def getController_def)

lemma fold_addDependency_frame:
  "getController (fold (\<lambda>dep c. addDependency c a dep) deps cm) file = getController cm file
   \<and> hashAlgorithm (fold (\<lambda>dep c. addDependency c a dep) deps cm) = hashAlgorithm cm"
  by (induction deps arbitrary: cm) (simp_all add: addDependency_frame)

lemma setController_alg: "hashAlgorithm (setController cm g c) = hashAlgorithm cm"
  by (simp add: setController_def)

lemma scanFile_analyze_other:
  assumes "g \<noteq> file" "project s \<noteq> None"
    and "getController cm file = Some cached" "hashAlgorithm cm = alg"
    and "scanFile_analyze w s sources cm g h n = Inr (r, s1)"
  shows "keeps_record s1 file cached alg
         \<and> count_list (analyzerRuns s1) file = count_list (analyzerRuns s) file"
  using assms
  by (auto simp: scanFile_analyze_def keeps_record_def Let_def removeController_other
      removeController_alg setController_other setController_alg fold_addDependency_frame
      split: option.splits prod.splits)

lemma scanFile_other:
  assumes "g \<noteq> file" "keeps_record s file cached alg" "scanFile w s g = Inr (r, s1)"
  shows "keeps_record s1 file cached alg
         \<and> count_list (analyzerRuns s1) file = count_list (analyzerRuns s) file"
proof -
  obtain sources where p: "project s = Some sources"
    using assms(2) by (auto simp: keeps_record_def)
  have pn: "project s \<noteq> None" using p by simp
  have k: "getController (cacheManager s) file = Some cached"
    "hashAlgorithm (cacheManager s) = alg"
    using assms(2) by (simp_all add: keeps_record_def)
  show ?thesis
  proof (cases "getController (cacheManager s) g")
    case None
    then have "scanFile_analyze w s sources (cacheManager s) g
                 (calculateHash (cacheManager s) w g) (getFileSize w g) = Inr (r, s1)"
      using assms(3) p by (simp add: scanFile_def Let_def)
    then show ?thesis using scanFile_analyze_other[OF assms(1) pn k] by blast
  next
    case (Some cg)
    let ?hc = "hasFileChanged (cacheManager s) w g (calculateHash (cacheManager s) w g)"
    have fr: "getController (snd ?hc) file = Some cached" "hashAlgorithm (snd ?hc) = alg"
      using k hasFileChanged_frame[of "cacheManager s" w g] by (simp_all add: getController_def)
    show ?thesis
    proof (cases "fst ?hc")
      case True
      then have "scanFile_analyze w s sources (snd ?hc) g
                 (calculateHash (cacheManager s) w g) (getFileSize w g) = Inr (r, s1)"
        using assms(3) p Some by (simp add: scanFile_def Let_def case_prod_unfold)
      then show ?thesis using scanFile_analyze_other[OF assms(1) pn fr] by blast
    next
      case False
      then have "s1 = s\<lparr>cacheManager := snd ?hc\<rparr>"
        using assms(3) p Some by (simp add: scanFile_def Let_def case_prod_unfold)
      then show ?thesis using fr p by (simp add: keeps_record_def)
    qed
  qed
qed

lemma scanAffected_keeps:
  assumes "\<not> fst (hasFileChanged cm0 w file (calculateHash cm0 w file))"
    and "getController cm0 file = Some cached" and "hashAlgorithm cm0 = alg"
  shows "keeps_record s file cached alg
     \<Longrightarrow> scanAffected w files s results = Inr (s', results')
     \<Longrightarrow> keeps_record s' file cached alg
         \<and> count_list (analyzerRuns s') file = count_list (analyzerRuns s) file
         \<and> map_of results' file
             = (if file \<in> set files \<and> existsSync w file
                then Some (Some (controllerInfo cached)) else map_of results file)"
proof (induction files arbitrary: s results)
  case Nil
  then show ?case by simp
next
  case (Cons g files)
  show ?case
  proof (cases "existsSync w g")
    case False
    then have "scanAffected w files s results = Inr (s', results')"
      using Cons.prems(2) by simp
    from Cons.IH[OF Cons.prems(1) this] False show ?thesis by auto
  next
    case True
    obtain r s1 where sf: "scanFile w s g = Inr (r, s1)"
      using Cons.prems(2) True by (auto split: sum.splits)
    let ?s2 = "case (dependencyTracker s1, r) of
               (Some t, Some info) \<Rightarrow>
                 s1\<lparr>dependencyTracker :=
                      Some (updateDependency t
                              (case project s1 of Some sources \<Rightarrow> sources | None \<Rightarrow> [])
                              g)\<rparr>
             | _ \<Rightarrow> s1"
    have rest: "scanAffected w files ?s2 (AList.update g r results) = Inr (s', results')"
      using Cons.prems(2) True sf by simp
    have s2: "keeps_record ?s2 file cached alg = keeps_record s1 file cached alg"
      "analyzerRuns ?s2 = analyzerRuns s1"
      by (auto simp: keeps_record_def split: option.splits)
    have step: "keeps_record s1 file cached alg
                \<and> count_list (analyzerRuns s1) file = count_list (analyzerRuns s) file
                \<and> (g = file \<longrightarrow> r = Some (controllerInfo cached))"
    proof (cases "g = file")
      case False
      then show ?thesis using scanFile_other[OF False Cons.prems(1) sf] by simp
    next
      case same: True
      obtain sources where p: "project s = Some sources"
        using Cons.prems(1) by (auto simp: keeps_record_def)
      have k: "getController (cacheManager s) file = Some cached"
        "hashAlgorithm (cacheManager s) = alg"
        using Cons.prems(1) by (simp_all add: keeps_record_def)
      have "fst (hasFileChanged (cacheManager s) w file (calculateHash (cacheManager s) w file))
            = fst (hasFileChanged cm0 w file (calculateHash cm0 w file))"
        using k assms(2,3)
        by (simp add: hasFileChanged_def calculateHash_def getController_def
            split: option.splits)
      then have "scanFile w s file = Inr (Some (controllerInfo cached), s)"
        using scanFile_hit[OF p k(1)] assms(1) by simp
      then show ?thesis using sf same Cons.prems(1) by simp
    qed
    have ih: "keeps_record s' file cached alg
         \<and> count_list (analyzerRuns s') file = count_list (analyzerRuns ?s2) file
         \<and> map_of results' file
             = (if file \<in> set files \<and> existsSync w file
                then Some (Some (controllerInfo cached))
                else map_of (AList.update g r results) file)"
      using Cons.IH[OF _ rest] step s2 by simp
    show ?thesis
      using ih step s2 True by (auto simp: update_conv')
  qed
qed

lemma collectEvent_keeps:
  assumes "eventType e = Unlink \<longrightarrow> eventPath e \<noteq> file"
    and "keeps_record (fst acc) file cached alg"
  shows "keeps_record (fst (collectEvent e acc)) file cached alg
         \<and> analyzerRuns (fst (collectEvent e acc)) = analyzerRuns (fst acc)"
  using assms
  by (cases acc)
     (auto simp: collectEvent_def handleFileDelete_def keeps_record_def Let_def
        removeController_other removeController_alg)

lemma fold_collectEvent_keeps:
  assumes "\<forall>e \<in> set events. eventType e = Unlink \<longrightarrow> eventPath e \<noteq> file"
    and "keeps_record (fst acc) file cached alg"
  shows "keeps_record (fst (fold collectEvent events acc)) file cached alg
         \<and> analyzerRuns (fst (fold collectEvent events acc)) = analyzerRuns (fst acc)"
  using assms
proof (induction events arbitrary: acc)
  case Nil
  then show ?case by simp
next
  case (Cons e events)
  have one: "keeps_record (fst (collectEvent e acc)) file cached alg
         \<and> analyzerRuns (fst (collectEvent e acc)) = analyzerRuns (fst acc)"
    using Cons.prems by (intro collectEvent_keeps) simp_all
  have "keeps_record (fst (fold collectEvent events (collectEvent e acc))) file cached alg
         \<and> analyzerRuns (fst (fold collectEvent events (collectEvent e acc)))
             = analyzerRuns (fst (collectEvent e acc))"
    using Cons.prems one by (intro Cons.IH) simp_all
  then show ?case using one by simp
qed

lemma processFileChanges_keeps:
  assumes "isInitialized s" "project s \<noteq> None"
    and "getController (cacheManager s) file = Some cached"
    and "\<not> fst (hasFileChanged (cacheManager s) w file (calculateHash (cacheManager s) w file))"
    and "\<forall>e \<in> set events. eventType e = Unlink \<longrightarrow> eventPath e \<noteq> file"
    and "processFileChanges w s events = Inr (results, s', w')"
  shows "count_list (analyzerRuns s') file = count_list (analyzerRuns s) file
         \<and> (file \<in> fst ` set results
              \<longrightarrow> map_of results file = Some (Some (controllerInfo cached)))"
proof -
  obtain s1 affected where f: "fold collectEvent events (s, []) = (s1, affected)"
    by (cases "fold collectEvent events (s, [])")
  have k0: "keeps_record (fst (s, [])) file cached (hashAlgorithm (cacheManager s))"
    using assms(2,3) by (simp add: keeps_record_def)
  have k1: "keeps_record s1 file cached (hashAlgorithm (cacheManager s))"
    "analyzerRuns s1 = analyzerRuns s"
    using fold_collectEvent_keeps[OF assms(5) k0] f by simp_all
  have sc: "scanAffected w affected s1 [] = Inr (s', results)"
    using assms(1,2,6) f by (auto simp: processFileChanges_def split: sum.splits)
  have r: "keeps_record s' file cached (hashAlgorithm (cacheManager s))
         \<and> count_list (analyzerRuns s') file = count_list (analyzerRuns s1) file
         \<and> map_of results file
             = (if file \<in> set affected \<and> existsSync w file
                then Some (Some (controllerInfo cached)) else map_of [] file)"
    using scanAffected_keeps[OF assms(4,3) refl k1(1) sc] .
  have "map_of results file = Some (Some (controllerInfo cached))"
    if "file \<in> fst ` set results"
  proof -
    have "map_of results file \<noteq> None" using that by (simp add: map_of_eq_None_iff)
    then show ?thesis using r by (auto split: if_splits)
  qed
  then show ?thesis using r k1(2) by simp
qed


text \<open>An initialized scanner whose cache holds the users controller and whose graph knows
  the controller's import, and the event of a change to the controller's file.\<close>

definition warm_scanner :: scanner where
  "warm_scanner =
     \<lparr>project = Some [],
      cacheManager = warm_cache,
      dependencyTracker =
        Some \<lparr>dependencyGraph = [(''/src/users.controller.ts'', [''/src/user.dto.ts''])],
              reverseDependencyGraph = [(''/src/user.dto.ts'', [''/src/users.controller.ts''])],
              inheritanceGraph = []\<rparr>,
      isInitialized = True,
      analyzerRuns = []\<rparr>"

definition users_touched :: fileChangeEvent where
  "users_touched =
     \<lparr>eventType = Change, eventPath = ''/src/users.controller.ts'', eventHash = Some ''h1''\<rparr>"

text \<open>
  Claim C6. When a file has a cached record and \<^verbatim>\<open>hasFileChanged\<close> says that it is
  unchanged, \<^verbatim>\<open>scanFile\<close> returns the cached \<^verbatim>\<open>controllerInfo\<close> and leaves the scanner as it was:
  it does not go into the ts-morph analysis. During a whole \<^verbatim>\<open>processFileChanges\<close> on a batch
  that does not remove the file, the analysis is run for the file not once (the number of
  entries of the file in \<open>analyzerRuns\<close> does not change), and when the file is among the
  results, its result is the cached one.
\<close>

theorem unchanged_file_reuses_cache:
  assumes "project s = Some sources"
    and "getController (cacheManager s) file = Some cached"
    and "\<not> fst (hasFileChanged (cacheManager s) w file (calculateHash (cacheManager s) w file))"
  shows "scanFile w s file = Inr (Some (controllerInfo cached), s)
    \<and> (\<forall>events results s' w'.
          isInitialized s
          \<and> (\<forall>e \<in> set events. eventType e = Unlink \<longrightarrow> eventPath e \<noteq> file)
          \<and> processFileChanges w s events = Inr (results, s', w')
        \<longrightarrow> count_list (analyzerRuns s') file = count_list (analyzerRuns s) file
            \<and> (file \<in> fst ` set results
                 \<longrightarrow> map_of results file = Some (Some (controllerInfo cached))))"
proof (intro conjI allI impI)
  show "scanFile w s file = Inr (Some (controllerInfo cached), s)"
    using assms by (rule scanFile_hit)
next
  fix events results s' w'
  assume a: "isInitialized s
          \<and> (\<forall>e \<in> set events. eventType e = Unlink \<longrightarrow> eventPath e \<noteq> file)
          \<and> processFileChanges w s events = Inr (results, s', w')"
  have pn: "project s \<noteq> None" using assms(1) by simp
  have i: "isInitialized s"
    and u: "\<forall>e \<in> set events. eventType e = Unlink \<longrightarrow> eventPath e \<noteq> file"
    and p: "processFileChanges w s events = Inr (results, s', w')"
    using a by simp_all
  have r: "count_list (analyzerRuns s') file = count_list (analyzerRuns s) file
         \<and> (file \<in> fst ` set results
              \<longrightarrow> map_of results file = Some (Some (controllerInfo cached)))"
    using i pn assms(2,3) u p by (rule processFileChanges_keeps)
  show "count_list (analyzerRuns s') file = count_list (analyzerRuns s) file"
    using r by simp
  show "map_of results file = Some (Some (controllerInfo cached))"
    if "file \<in> fst ` set results"
    using r that by simp
qed

theorem unchanged_file_reuses_cache_witness:
  "scanFile (sized_world 10) warm_scanner ''/src/users.controller.ts''
     = Inr (Some (controllerInfo users_record), warm_scanner)
   \<and> \<not> isl (processFileChanges (sized_world 10) warm_scanner [users_touched])
   \<and> count_list
       (analyzerRuns (fst (snd (projr
          (processFileChanges (sized_world 10) warm_scanner [users_touched])))))
       ''/src/users.controller.ts'' = 0
   \<and> map_of (fst (projr (processFileChanges (sized_world 10) warm_scanner [users_touched])))
       ''/src/users.controller.ts'' = Some (Some (controllerInfo users_record))"
proof -
  let ?f = "''/src/users.controller.ts''"
  have h1: "project warm_scanner = Some []"
    by (simp add: warm_scanner_def)
  have h2: "getController (cacheManager warm_scanner) ?f = Some users_record"
    by (simp add: warm_scanner_def warm_cache_def getController_def)
  have h3: "\<not> fst (hasFileChanged (cacheManager warm_scanner) (sized_world 10) ?f
              (calculateHash (cacheManager warm_scanner) (sized_world 10) ?f))"
    by (simp add: warm_scanner_def warm_cache_def hasFileChanged_def calculateHash_def
        sized_world_def users_record_def)
  note T = unchanged_file_reuses_cache[OF h1 h2 h3]
  have ini: "isInitialized warm_scanner" "analyzerRuns warm_scanner = []"
    by (simp_all add: warm_scanner_def)
  have ev: "\<forall>e \<in> set [users_touched]. eventType e = Unlink \<longrightarrow> eventPath e \<noteq> ?f"
    by (simp add: users_touched_def)
  have aff: "collectEvent users_touched (warm_scanner, []) = (warm_scanner, [?f])"
    by (simp add: collectEvent_def users_touched_def warm_scanner_def isDtoFile_def
        basename_def endsWith_def toLower_def set_add_def)
  have ex: "existsSync (sized_world 10) ?f"
    by (simp add: sized_world_def)
  have run: "\<exists>results s' w'.
      processFileChanges (sized_world 10) warm_scanner [users_touched] = Inr (results, s', w')"
    using T[THEN conjunct1] h1 ini ex
    by (simp add: processFileChanges_def aff split: option.splits)
  then obtain results s' w' where
    run': "processFileChanges (sized_world 10) warm_scanner [users_touched]
             = Inr (results, s', w')"
    by blast
  have key: "?f \<in> fst ` set results"
    using run' T[THEN conjunct1] h1 ini ex
    by (auto simp: processFileChanges_def aff split: option.splits)
  have c: "count_list (analyzerRuns s') ?f = count_list (analyzerRuns warm_scanner) ?f
            \<and> (?f \<in> fst ` set results
                 \<longrightarrow> map_of results ?f = Some (Some (controllerInfo users_record)))"
    using T[THEN conjunct2, THEN spec, THEN spec, THEN spec, THEN spec, THEN mp,
            of "[users_touched]" results s' w'] ini(1) ev run'
    by blast
  show ?thesis
    using T[THEN conjunct1] c key run' ini(2) by simp
qed


section \<open>Removal of a base file\<close>

text \<open>The cache and the scanner after a full scan of the three-level chain: controller A
  extends controller B, which extends the base class C. The cache records for each
  controller the files it depends on.\<close>

definition chain_record :: "path \<Rightarrow> string \<Rightarrow> path list \<Rightarrow> cached_controller" where
  "chain_record file name deps =
     \<lparr>filePath = file, fileHash = ''h1'', fileSize = 10,
      controllerInfo =
        \<lparr>ci_name = name, ci_path = [], ci_methods = [], ci_hasGuards = False,
         ci_filePath = Some file\<rparr>,
      cdependencies = deps, lastScanned = 0\<rparr>"

definition chain_scanner :: scanner where
  "chain_scanner =
     \<lparr>project = Some [],
      cacheManager =
        \<lparr>cacheFilePath = ''/scramble-cache.json'', enabled = True, ttl = 86400000,
         hashAlgorithm = MD5,
         metadata =
           \<lparr>version = CACHE_VERSION, timestamp = Some 0, tsConfigHash = None,
            controllers =
              [(''/src/a.controller.ts'',
                  chain_record ''/src/a.controller.ts'' ''A'' [''/src/b.controller.ts'']),
               (''/src/b.controller.ts'',
                  chain_record ''/src/b.controller.ts'' ''B'' [''/src/c.base.ts''])],
            dependencies =
              [(''/src/a.controller.ts'', [''/src/b.controller.ts'']),
               (''/src/b.controller.ts'', [''/src/c.base.ts''])]\<rparr>,
         hashCollisions = [], console = []\<rparr>,
      dependencyTracker = Some chain_tracker,
      isInitialized = True,
      analyzerRuns = []\<rparr>"

definition base_removed :: fileChangeEvent where
  "base_removed = \<lparr>eventType = Unlink, eventPath = ''/src/c.base.ts'', eventHash = None\<rparr>"

text \<open>
  Claim C1. The transitive-impact query on the graph gives B and A for the removed base
  file C. \<^verbatim>\<open>handleFileDelete\<close> does not call it: it asks the cache for the controllers whose
  own dependency set holds C, before the removal, and gets B alone. The affected set of
  the batch is B, A is not in it, and the map returned by \<^verbatim>\<open>processFileChanges\<close> has B as its
  only key.
\<close>

theorem handleFileDelete_direct_dependents_only:
  "getAffectedFiles chain_tracker ''/src/c.base.ts''
     = [''/src/b.controller.ts'', ''/src/a.controller.ts'']
   \<and> snd (handleFileDelete chain_scanner ''/src/c.base.ts'' []) = [''/src/b.controller.ts'']
   \<and> snd (fold collectEvent [base_removed] (chain_scanner, [])) = [''/src/b.controller.ts'']
   \<and> ''/src/a.controller.ts'' \<notin> set (snd (fold collectEvent [base_removed] (chain_scanner, [])))
   \<and> map fst (fst (projr (processFileChanges (sized_world 10) chain_scanner [base_removed])))
       = [''/src/b.controller.ts'']"
proof -
  have a: "getAffectedFiles chain_tracker ''/src/c.base.ts''
     = [''/src/b.controller.ts'', ''/src/a.controller.ts'']"
    by (rule chain_affected)
  have b: "snd (handleFileDelete chain_scanner ''/src/c.base.ts'' []) = [''/src/b.controller.ts'']"
    by (simp add: handleFileDelete_def chain_scanner_def getDependentControllers_def
        set_add_def)
  have c: "snd (fold collectEvent [base_removed] (chain_scanner, [])) = [''/src/b.controller.ts'']"
    using b by (simp add: collectEvent_def base_removed_def)
  have d: "map fst (fst (projr (processFileChanges (sized_world 10) chain_scanner [base_removed])))
       = [''/src/b.controller.ts'']"
    by (simp add: processFileChanges_def collectEvent_def base_removed_def
        handleFileDelete_def chain_scanner_def getDependentControllers_def set_add_def
        sized_world_def scanFile_def getController_def removeController_def
        hasFileChanged_def calculateHash_def getFileSize_def chain_record_def
        set_delete_def Let_def)
  show ?thesis using a b c d by simp
qed


theorem handleFileDelete_direct_dependents_only_witness:
  "''/src/a.controller.ts'' \<in> set (getAffectedFiles chain_tracker ''/src/c.base.ts'')
   \<and> ''/src/a.controller.ts''
        \<notin> set (snd (fold collectEvent [base_removed] (chain_scanner, [])))"
proof -
  note T = handleFileDelete_direct_dependents_only
  have "''/src/a.controller.ts'' \<in> set (getAffectedFiles chain_tracker ''/src/c.base.ts'')"
    by (simp add: T[THEN conjunct1])
  then show ?thesis
    using T[THEN conjunct2, THEN conjunct2, THEN conjunct2, THEN conjunct1] by simp
qed

end
